theory Spec2Isabelle
  imports Complex_Main "HOL-Library.AList"
begin

section \<open>Values, errors and dictionaries\<close>

text \<open>
  The module \<^verbatim>\<open>voting.py\<close> raises \<^verbatim>\<open>ValueError\<close> at three places of its own, and the
  built-ins it calls raise on their own: \<^verbatim>\<open>max\<close> and \<^verbatim>\<open>min\<close> of an empty sequence
  (a \<^verbatim>\<open>ValueError\<close> again), a dictionary lookup of a missing key, an index out of
  range (also what \<^verbatim>\<open>random.choice\<close> raises on an empty list). One constructor per
  place, so that the theorems can tell them apart.
\<close>

datatype py_error =
    AgentNotFound
  | ScoreVectorLength
  | InvalidTieBreak
  | EmptySequence
  | KeyError
  | IndexError

text \<open>
  Alternatives and agents are Python integers. A profile is a dictionary from agents to
  rankings; a dictionary is an association list in insertion order (\<open>map_of\<close> is the
  lookup, \<open>AList.update\<close> the assignment \<^verbatim>\<open>d[k] = v\<close>, \<open>map snd\<close> is \<^verbatim>\<open>d.values()\<close>).
  The rankings of a profile are taken to be separate list objects.
\<close>

type_synonym profile = "(int \<times> int list) list"

text \<open>The tie-break argument is untyped in the source: a string or an agent number.\<close>

datatype pyval = PyStr string | PyInt int

text \<open>A dictionary comprehension \<^verbatim>\<open>{k: v for k in ks}\<close>: the keys are inserted in turn.\<close>

definition dict_from_keys :: "'k list \<Rightarrow> 'v \<Rightarrow> ('k \<times> 'v) list" where
  "dict_from_keys ks v = fold (\<lambda>k d. AList.update k v d) ks []"

text \<open>
  \<^verbatim>\<open>max(xs)\<close> and \<^verbatim>\<open>min(xs)\<close>: the first item is the candidate, a later item replaces
  it when it is strictly greater (smaller).
\<close>

fun py_max :: "('a::ord) list \<Rightarrow> py_error + 'a" where
  "py_max [] = Inl EmptySequence"
| "py_max (x # xs) = Inr (foldl (\<lambda>best y. if best < y then y else best) x xs)"

fun py_min :: "('a::ord) list \<Rightarrow> py_error + 'a" where
  "py_min [] = Inl EmptySequence"
| "py_min (x # xs) = Inr (foldl (\<lambda>best y. if y < best then y else best) x xs)"

text \<open>\<^verbatim>\<open>sum(xs)\<close> starts from 0 and adds the items from the left.\<close>

definition py_sum :: "('v::{plus,zero}) list \<Rightarrow> 'v" where
  "py_sum xs = foldl (+) 0 xs"

text \<open>
  \<^verbatim>\<open>random.choice(xs)\<close> fails on an empty list and returns \<^verbatim>\<open>xs[i]\<close> otherwise, for an
  index \<open>i\<close> below the length that the generator draws; \<open>rnd\<close> is that draw.
\<close>

definition random_choice :: "nat \<Rightarrow> 'a list \<Rightarrow> py_error + 'a" where
  "random_choice rnd xs = (if xs = [] then Inl IndexError else Inr (xs ! (rnd mod length xs)))"

text \<open>\<^verbatim>\<open>for pref in preferences.values(): body\<close>, stopping at the first exception.\<close>

fun for_each_pref ::
  "(int list \<Rightarrow> 's \<Rightarrow> py_error + 's) \<Rightarrow> int list list \<Rightarrow> 's \<Rightarrow> py_error + 's" where
  "for_each_pref body [] st = Inr st"
| "for_each_pref body (pref # rest) st =
     (case body pref st of Inl e \<Rightarrow> Inl e | Inr st' \<Rightarrow> for_each_pref body rest st')"

text \<open>\<^verbatim>\<open>[alt for alt, val in scores.items() if val == max_score]\<close>\<close>

definition winners_of :: "(int \<times> 's) list \<Rightarrow> 's \<Rightarrow> int list" where
  "winners_of scores max_score = map fst (filter (\<lambda>(alt, val). val = max_score) scores)"

section \<open>The tie-break resolver\<close>

text \<open>
  The result is \<open>Inr (Some alt)\<close> when an alternative is returned and \<open>Inr None\<close> when
  the function ends without a \<^verbatim>\<open>return\<close> (Python's \<^verbatim>\<open>None\<close>): the \<^verbatim>\<open>for\<close> loop of
  the agent branch falls through when no alternative of the agent's ranking is among the
  winners, and the \<^verbatim>\<open>else\<close> belongs to the \<^verbatim>\<open>if\<close> chain, not to the loop.
\<close>

definition tie_break_function ::
  "nat \<Rightarrow> profile \<Rightarrow> pyval \<Rightarrow> int list \<Rightarrow> py_error + int option" where
  "tie_break_function rnd preferences tie_break winners =
     (if length winners = 1 then Inr (Some (winners ! 0))
      else if tie_break = PyStr ''max'' then map_sum id Some (py_max winners)
      else if tie_break = PyStr ''min'' then map_sum id Some (py_min winners)
      else if tie_break = PyStr ''random'' then map_sum id Some (random_choice rnd winners)
      else (case tie_break of
              PyInt agent \<Rightarrow>
                (case map_of preferences agent of
                   Some pref \<Rightarrow> Inr (find (\<lambda>alt. alt \<in> set winners) pref)
                 | None \<Rightarrow> Inl InvalidTieBreak)
            | PyStr _ \<Rightarrow> Inl InvalidTieBreak))"

section \<open>Profile construction\<close>

text \<open>
  The table is the external collaborator: its extents and its cell lookup. The cell
  values are of any linearly ordered type.
\<close>

record 'v table =
  max_row :: int
  max_column :: int
  cell :: "int \<Rightarrow> int \<Rightarrow> 'v"

text \<open>\<^verbatim>\<open>enumerate(vals, 1)\<close>\<close>

definition enumerate1 :: "'a list \<Rightarrow> (int \<times> 'a) list" where
  "enumerate1 xs = zip [1..int (length xs)] xs"

text \<open>
  \<^verbatim>\<open>sorted(xs, key=key, reverse=True)\<close>: the list is reversed, sorted stably in
  ascending order and reversed again, which keeps items of equal key in their order.
\<close>

definition sorted_reverse :: "('a \<Rightarrow> 'k::linorder) \<Rightarrow> 'a list \<Rightarrow> 'a list" where
  "sorted_reverse key xs = rev (sort_key key (rev xs))"

definition generate_preferences :: "('v::linorder) table \<Rightarrow> profile" where
  "generate_preferences values =
     (let agent_prefs =
            map (\<lambda>row. (row, map (\<lambda>col. cell values row col) [1..max_column values]))
              [1..max_row values]
      in map (\<lambda>(agent, vals). (agent, map fst (sorted_reverse snd (enumerate1 vals))))
           agent_prefs)"

section \<open>The rules\<close>

subsection \<open>Dictatorship\<close>

definition dictatorship :: "profile \<Rightarrow> int \<Rightarrow> py_error + int" where
  "dictatorship preferences agent =
     (case map_of preferences agent of
        None \<Rightarrow> Inl AgentNotFound
      | Some pref \<Rightarrow> (case pref of [] \<Rightarrow> Inl IndexError | alt # _ \<Rightarrow> Inr alt))"

subsection \<open>Scoring rule\<close>

text \<open>
  The inner loop \<^verbatim>\<open>for i, alt in enumerate(pref): scores[alt] += score_vector[i]\<close>.
  The augmented assignment reads \<^verbatim>\<open>scores[alt]\<close> before it evaluates the right-hand
  side. The weights are of any type with an addition, a zero and an order.
\<close>

fun add_scores ::
  "('s::{plus,zero,ord}) list \<Rightarrow> nat \<Rightarrow> int list \<Rightarrow> (int \<times> 's) list \<Rightarrow> py_error + (int \<times> 's) list" where
  "add_scores score_vector i [] scores = Inr scores"
| "add_scores score_vector i (alt # pref) scores =
     (case map_of scores alt of
        None \<Rightarrow> Inl KeyError
      | Some s \<Rightarrow>
          if i < length score_vector
          then add_scores score_vector (Suc i) pref (AList.update alt (s + score_vector ! i) scores)
          else Inl IndexError)"

definition scoring_rule_winners ::
  "profile \<Rightarrow> ('s::{plus,zero,ord}) list \<Rightarrow> py_error + int list" where
  "scoring_rule_winners preferences score_vector =
     (case map_of preferences 1 of
        None \<Rightarrow> Inl KeyError
      | Some pref1 \<Rightarrow>
          let m = length pref1 in
          if length score_vector \<noteq> m then Inl ScoreVectorLength
          else
            (case for_each_pref (add_scores score_vector 0) (map snd preferences)
                    (dict_from_keys [1..int m] 0) of
               Inl e \<Rightarrow> Inl e
             | Inr scores \<Rightarrow>
                 (case py_max (map snd scores) of
                    Inl e \<Rightarrow> Inl e
                  | Inr max_score \<Rightarrow> Inr (winners_of scores max_score))))"

definition scoring_rule ::
  "nat \<Rightarrow> profile \<Rightarrow> ('s::{plus,zero,ord}) list \<Rightarrow> pyval \<Rightarrow> py_error + int option" where
  "scoring_rule rnd preferences score_vector tie_break =
     (case scoring_rule_winners preferences score_vector of
        Inl e \<Rightarrow> Inl e
      | Inr winners \<Rightarrow> tie_break_function rnd preferences tie_break winners)"

subsection \<open>Plurality\<close>

text \<open>\<^verbatim>\<open>top_counts[pref[0]] = top_counts.get(pref[0], 0) + 1\<close>\<close>

fun count_top :: "int list \<Rightarrow> (int \<times> int) list \<Rightarrow> py_error + (int \<times> int) list" where
  "count_top [] top_counts = Inl IndexError"
| "count_top (top_alt # _) top_counts =
     Inr (AList.update top_alt ((case map_of top_counts top_alt of None \<Rightarrow> 0 | Some c \<Rightarrow> c) + 1)
            top_counts)"

definition plurality_winners :: "profile \<Rightarrow> py_error + int list" where
  "plurality_winners preferences =
     (case for_each_pref count_top (map snd preferences) [] of
        Inl e \<Rightarrow> Inl e
      | Inr top_counts \<Rightarrow>
          (case py_max (map snd top_counts) of
             Inl e \<Rightarrow> Inl e
           | Inr max_count \<Rightarrow> Inr (winners_of top_counts max_count)))"

definition plurality :: "nat \<Rightarrow> profile \<Rightarrow> pyval \<Rightarrow> py_error + int option" where
  "plurality rnd preferences tie_break =
     (case plurality_winners preferences of
        Inl e \<Rightarrow> Inl e
      | Inr winners \<Rightarrow> tie_break_function rnd preferences tie_break winners)"

subsection \<open>Veto\<close>

text \<open>\<^verbatim>\<open>for alt in pref[:-1]: scores[alt] += 1\<close>\<close>

fun add_ones :: "int list \<Rightarrow> (int \<times> int) list \<Rightarrow> py_error + (int \<times> int) list" where
  "add_ones [] scores = Inr scores"
| "add_ones (alt # pref) scores =
     (case map_of scores alt of
        None \<Rightarrow> Inl KeyError
      | Some s \<Rightarrow> add_ones pref (AList.update alt (s + 1) scores))"

definition veto_winners :: "profile \<Rightarrow> py_error + int list" where
  "veto_winners preferences =
     (case map_of preferences 1 of
        None \<Rightarrow> Inl KeyError
      | Some pref1 \<Rightarrow>
          (case for_each_pref (\<lambda>pref. add_ones (butlast pref)) (map snd preferences)
                  (dict_from_keys pref1 0) of
             Inl e \<Rightarrow> Inl e
           | Inr scores \<Rightarrow>
               (case py_max (map snd scores) of
                  Inl e \<Rightarrow> Inl e
                | Inr max_score \<Rightarrow> Inr (winners_of scores max_score))))"

definition veto :: "nat \<Rightarrow> profile \<Rightarrow> pyval \<Rightarrow> py_error + int option" where
  "veto rnd preferences tie_break =
     (case veto_winners preferences of
        Inl e \<Rightarrow> Inl e
      | Inr winners \<Rightarrow> tie_break_function rnd preferences tie_break winners)"

subsection \<open>Borda\<close>

text \<open>\<^verbatim>\<open>for i, alt in enumerate(pref): scores[alt] += m - i\<close>\<close>

fun add_borda :: "nat \<Rightarrow> nat \<Rightarrow> int list \<Rightarrow> (int \<times> int) list \<Rightarrow> py_error + (int \<times> int) list" where
  "add_borda m i [] scores = Inr scores"
| "add_borda m i (alt # pref) scores =
     (case map_of scores alt of
        None \<Rightarrow> Inl KeyError
      | Some s \<Rightarrow> add_borda m (Suc i) pref (AList.update alt (s + (int m - int i)) scores))"

definition borda_winners :: "profile \<Rightarrow> py_error + int list" where
  "borda_winners preferences =
     (case map_of preferences 1 of
        None \<Rightarrow> Inl KeyError
      | Some pref1 \<Rightarrow>
          let m = length pref1 in
          (case for_each_pref (add_borda m 0) (map snd preferences) (dict_from_keys pref1 0) of
             Inl e \<Rightarrow> Inl e
           | Inr scores \<Rightarrow>
               (case py_max (map snd scores) of
                  Inl e \<Rightarrow> Inl e
                | Inr max_score \<Rightarrow> Inr (winners_of scores max_score))))"

definition borda :: "nat \<Rightarrow> profile \<Rightarrow> pyval \<Rightarrow> py_error + int option" where
  "borda rnd preferences tie_break =
     (case borda_winners preferences of
        Inl e \<Rightarrow> Inl e
      | Inr winners \<Rightarrow> tie_break_function rnd preferences tie_break winners)"

subsection \<open>Harmonic\<close>

text \<open>
  \<^verbatim>\<open>scores[alt] = scores.get(alt, 0) + 1 / (i + 1)\<close> in floating point. The float type
  and its operations are parameters: \<open>'f\<close> with its addition, zero and order, and
  \<open>one_over k\<close> for the quotient \<^verbatim>\<open>1 / k\<close>.
\<close>

fun add_harmonic ::
  "(nat \<Rightarrow> 'f) \<Rightarrow> nat \<Rightarrow> int list \<Rightarrow> (int \<times> 'f::{plus,zero,ord}) list \<Rightarrow> (int \<times> 'f) list" where
  "add_harmonic one_over i [] scores = scores"
| "add_harmonic one_over i (alt # pref) scores =
     add_harmonic one_over (Suc i) pref
       (AList.update alt ((case map_of scores alt of None \<Rightarrow> 0 | Some s \<Rightarrow> s) + one_over (i + 1))
          scores)"

definition harmonic_winners :: "(nat \<Rightarrow> 'f::{plus,zero,ord}) \<Rightarrow> profile \<Rightarrow> py_error + int list" where
  "harmonic_winners one_over preferences =
     (case for_each_pref (\<lambda>pref scores. Inr (add_harmonic one_over 0 pref scores))
             (map snd preferences) [] of
        Inl e \<Rightarrow> Inl e
      | Inr scores \<Rightarrow>
          (case py_max (map snd scores) of
             Inl e \<Rightarrow> Inl e
           | Inr max_score \<Rightarrow> Inr (winners_of scores max_score)))"

definition harmonic ::
  "(nat \<Rightarrow> 'f::{plus,zero,ord}) \<Rightarrow> nat \<Rightarrow> profile \<Rightarrow> pyval \<Rightarrow> py_error + int option" where
  "harmonic one_over rnd preferences tie_break =
     (case harmonic_winners one_over preferences of
        Inl e \<Rightarrow> Inl e
      | Inr winners \<Rightarrow> tie_break_function rnd preferences tie_break winners)"

subsection \<open>Single transferable vote\<close>

text \<open>
  The live set \<^verbatim>\<open>alternatives\<close> is a list without duplicates (the order in which Python
  iterates over a set is not fixed, and no result below depends on it). The rankings are
  mutated in place, so a round takes the profile and returns the new one.
\<close>

text \<open>The tally: \<^verbatim>\<open>if pref: if pref[0] in counts: counts[pref[0]] += 1\<close>\<close>

fun tally_top :: "int list \<Rightarrow> (int \<times> int) list \<Rightarrow> (int \<times> int) list" where
  "tally_top [] counts = counts"
| "tally_top (top_alt # _) counts =
     (case map_of counts top_alt of
        None \<Rightarrow> counts
      | Some c \<Rightarrow> AList.update top_alt (c + 1) counts)"

definition STV_counts :: "int list \<Rightarrow> profile \<Rightarrow> (int \<times> int) list" where
  "STV_counts alternatives preferences =
     fold tally_top (map snd preferences) (dict_from_keys alternatives 0)"

definition STV_eliminated :: "int list \<Rightarrow> profile \<Rightarrow> py_error + int list" where
  "STV_eliminated alternatives preferences =
     (let counts = STV_counts alternatives preferences in
      case py_min (map snd counts) of
        Inl e \<Rightarrow> Inl e
      | Inr min_count \<Rightarrow> Inr (map fst (filter (\<lambda>(alt, cnt). cnt = min_count) counts)))"

text \<open>\<^verbatim>\<open>for alt in eliminated: if alt in pref: pref.remove(alt)\<close>, for every ranking.\<close>

definition strike :: "int list \<Rightarrow> profile \<Rightarrow> profile" where
  "strike eliminated preferences =
     map (\<lambda>(agent, pref). (agent, fold remove1 eliminated pref)) preferences"

definition STV_round :: "int list \<Rightarrow> profile \<Rightarrow> py_error + (int list \<times> profile)" where
  "STV_round alternatives preferences =
     (case STV_eliminated alternatives preferences of
        Inl e \<Rightarrow> Inl e
      | Inr eliminated \<Rightarrow>
          Inr (filter (\<lambda>alt. alt \<notin> set eliminated) alternatives, strike eliminated preferences))"

text \<open>
  Every round strikes at least one live alternative: the facts the termination of the
  elimination loop rests on.
\<close>

lemma keys_update: "fst ` set (AList.update k v d) = insert k (fst ` set d)"
  by (induction d) auto

lemma keys_update_present: "map_of d k = Some c \<Longrightarrow> map fst (AList.update k v d) = map fst d"
  by (induction d) (auto split: if_splits)

lemma keys_dict_from_keys_aux:
  "fst ` set (fold (\<lambda>k d. AList.update k v d) ks d0) = fst ` set d0 \<union> set ks"
  by (induction ks arbitrary: d0) (simp_all add: keys_update)

lemma keys_dict_from_keys: "set (map fst (dict_from_keys ks v)) = set ks"
  by (simp add: dict_from_keys_def keys_dict_from_keys_aux)

lemma keys_tally_top: "map fst (tally_top pref counts) = map fst counts"
  by (cases pref) (simp_all add: keys_update_present split: option.splits)

lemma keys_fold_tally_top: "map fst (fold tally_top prefs counts) = map fst counts"
  by (induction prefs arbitrary: counts) (simp_all add: keys_tally_top)

lemma keys_STV_counts: "set (map fst (STV_counts alternatives preferences)) = set alternatives"
  unfolding STV_counts_def keys_fold_tally_top by (rule keys_dict_from_keys)

lemma py_min_mem: "py_min xs = Inr m \<Longrightarrow> m \<in> set xs"
proof (cases xs)
  case Nil
  assume "py_min xs = Inr m" with Nil show ?thesis by simp
next
  case (Cons x ys)
  have "foldl (\<lambda>best y. if y < best then y else best) b ys \<in> insert b (set ys)" for b
    by (induction ys arbitrary: b) auto
  moreover assume "py_min xs = Inr m"
  ultimately show ?thesis using Cons by auto
qed

lemma py_max_mem: "py_max xs = Inr m \<Longrightarrow> m \<in> set xs"
proof (cases xs)
  case Nil
  assume "py_max xs = Inr m" with Nil show ?thesis by simp
next
  case (Cons x ys)
  have "foldl (\<lambda>best y. if best < y then y else best) b ys \<in> insert b (set ys)" for b
    by (induction ys arbitrary: b) auto
  moreover assume "py_max xs = Inr m"
  ultimately show ?thesis using Cons by auto
qed

lemma STV_eliminated_props:
  assumes "STV_eliminated alternatives preferences = Inr eliminated"
  shows "eliminated \<noteq> []" and "set eliminated \<subseteq> set alternatives"
proof -
  let ?counts = "STV_counts alternatives preferences"
  from assms obtain mn where mn: "py_min (map snd ?counts) = Inr mn"
    and el: "eliminated = map fst (filter (\<lambda>(alt, cnt). cnt = mn) ?counts)"
    by (auto simp: STV_eliminated_def Let_def split: sum.splits)
  from py_min_mem[OF mn] obtain a where "(a, mn) \<in> set ?counts" by auto
  then have "a \<in> set eliminated" unfolding el by force
  then show "eliminated \<noteq> []" by auto
  have "set eliminated \<subseteq> set (map fst ?counts)" unfolding el by auto
  then show "set eliminated \<subseteq> set alternatives" unfolding keys_STV_counts .
qed

lemma STV_round_shrinks:
  assumes "STV_round alternatives preferences = Inr (alternatives', preferences')"
  shows "length alternatives' < length alternatives"
proof -
  from assms obtain eliminated where el: "STV_eliminated alternatives preferences = Inr eliminated"
    and a': "alternatives' = filter (\<lambda>alt. alt \<notin> set eliminated) alternatives"
    by (auto simp: STV_round_def split: sum.splits)
  from STV_eliminated_props[OF el] obtain a where "a \<in> set eliminated" "a \<in> set alternatives"
    by (cases eliminated) auto
  then show ?thesis unfolding a' by (auto intro: length_filter_less)
qed

text \<open>
  \<^verbatim>\<open>while len(alternatives) > 1: ...\<close>; the result is the live list and the profile as
  the loop leaves them.
\<close>

function STV_loop :: "int list \<Rightarrow> profile \<Rightarrow> py_error + (int list \<times> profile)" where
  "STV_loop alternatives preferences =
     (if length alternatives > 1 then
        (case STV_round alternatives preferences of
           Inl e \<Rightarrow> Inl e
         | Inr (alternatives', preferences') \<Rightarrow> STV_loop alternatives' preferences')
      else Inr (alternatives, preferences))"
  by pat_completeness auto
termination
  by (relation "measure (\<lambda>(alternatives, preferences). length alternatives)")
     (auto dest: STV_round_shrinks)

declare STV_loop.simps [simp del]

text \<open>
  Running exactly \<open>k\<close> rounds, whatever the loop condition says: the yardstick for counting
  the rounds of the loop.
\<close>

fun STV_iter :: "nat \<Rightarrow> int list \<Rightarrow> profile \<Rightarrow> py_error + (int list \<times> profile)" where
  "STV_iter 0 alternatives preferences = Inr (alternatives, preferences)"
| "STV_iter (Suc k) alternatives preferences =
     (case STV_round alternatives preferences of
        Inl e \<Rightarrow> Inl e
      | Inr (alternatives', preferences') \<Rightarrow> STV_iter k alternatives' preferences')"

text \<open>
  \<^verbatim>\<open>alternatives = set(preferences[1])\<close> and the loop: the winner list that STV hands to
  the resolver, with the mutated profile.
\<close>

definition STV_winners :: "profile \<Rightarrow> py_error + (int list \<times> profile)" where
  "STV_winners preferences =
     (case map_of preferences 1 of
        None \<Rightarrow> Inl KeyError
      | Some pref1 \<Rightarrow> STV_loop (remdups pref1) preferences)"

definition STV :: "nat \<Rightarrow> profile \<Rightarrow> pyval \<Rightarrow> py_error + int option" where
  "STV rnd preferences tie_break =
     (case STV_winners preferences of
        Inl e \<Rightarrow> Inl e
      | Inr (alternatives, preferences') \<Rightarrow>
          tie_break_function rnd preferences' tie_break alternatives)"

subsection \<open>Range voting\<close>

definition range_voting_winners :: "('v::{linorder,plus,zero}) table \<Rightarrow> py_error + int list" where
  "range_voting_winners values =
     (let num_alts = max_column values;
          scores = map (\<lambda>col. (col, py_sum (map (\<lambda>row. cell values row col) [1..max_row values])))
                     [1..num_alts]
      in case py_max (map snd scores) of
           Inl e \<Rightarrow> Inl e
         | Inr max_score \<Rightarrow> Inr (winners_of scores max_score))"

definition range_voting ::
  "nat \<Rightarrow> ('v::{linorder,plus,zero}) table \<Rightarrow> pyval \<Rightarrow> py_error + int option" where
  "range_voting rnd values tie_break =
     (let preferences = generate_preferences values in
      case range_voting_winners values of
        Inl e \<Rightarrow> Inl e
      | Inr winners \<Rightarrow> tie_break_function rnd preferences tie_break winners)"

section \<open>The tie-break resolver: results\<close>

lemma py_max_error: "py_max xs = Inl e \<Longrightarrow> e = EmptySequence \<and> xs = []"
  by (cases xs) auto

lemma py_min_error: "py_min xs = Inl e \<Longrightarrow> e = EmptySequence \<and> xs = []"
  by (cases xs) auto

lemma tie_break_function_single:
  "length winners = 1 \<Longrightarrow>
     tie_break_function rnd preferences tie_break winners = Inr (Some (winners ! 0))"
  by (simp add: tie_break_function_def)

lemma tie_break_function_invalid_iff:
  "tie_break_function rnd preferences tie_break winners = Inl InvalidTieBreak \<longleftrightarrow>
     length winners \<noteq> 1 \<and> tie_break \<noteq> PyStr ''max'' \<and> tie_break \<noteq> PyStr ''min'' \<and>
     tie_break \<noteq> PyStr ''random'' \<and>
     (case tie_break of PyInt agent \<Rightarrow> map_of preferences agent = None | PyStr _ \<Rightarrow> True)"
  by (cases "py_max winners"; cases "py_min winners")
     (auto simp: tie_break_function_def random_choice_def
           split: pyval.splits option.splits dest: py_max_error py_min_error)

lemma tie_break_function_mem:
  assumes "tie_break_function rnd preferences tie_break winners = Inr (Some alt)"
  shows "alt \<in> set winners"
proof (cases "length winners = 1")
  case True
  with assms have "alt = winners ! 0" by (simp add: tie_break_function_def)
  with True show ?thesis by (cases winners) auto
next
  case False
  show ?thesis
  proof (cases tie_break)
    case (PyStr s)
    with assms False show ?thesis
      by (cases "py_max winners"; cases "py_min winners")
         (auto simp: tie_break_function_def random_choice_def
               split: if_splits dest: py_max_mem py_min_mem)
  next
    case (PyInt agent)
    with assms False obtain pref where "find (\<lambda>alt. alt \<in> set winners) pref = Some alt"
      by (auto simp: tie_break_function_def split: option.splits)
    then show ?thesis by (auto simp: find_Some_iff)
  qed
qed

lemma tie_break_function_no_match:
  assumes "length winners \<noteq> 1" "map_of preferences agent = Some pref"
    "set pref \<inter> set winners = {}"
  shows "tie_break_function rnd preferences (PyInt agent) winners = Inr None"
proof -
  have "find (\<lambda>alt. alt \<in> set winners) pref = None"
    using assms(3) by (auto simp: find_None_iff)
  with assms(1,2) show ?thesis by (simp add: tie_break_function_def)
qed

text \<open>
  Claim C1, as the code has it. The claim asks for an explicit error when the tie-break
  policy is an agent of the profile, more than one winner is tied and none of the agent's
  ranked alternatives is a winner. The code raises nothing there: the loop over the
  agent's ranking ends, and the resolver returns Python's \<^verbatim>\<open>None\<close>.
\<close>

theorem tie_break_agent_without_match:
  "1 < length winners \<Longrightarrow> map_of preferences agent = Some pref \<Longrightarrow>
     set pref \<inter> set winners = {} \<Longrightarrow>
     tie_break_function rnd preferences (PyInt agent) winners = Inr None"
  by (rule tie_break_function_no_match) simp_all

theorem tie_break_agent_without_match_witness:
  "tie_break_function 0 [(1, [1, 2]), (2, [2, 1])] (PyInt 2) [3, 4] = Inr None"
  using tie_break_agent_without_match
          [of "[3, 4]" "[(1, [1, 2]), (2, [2, 1])]" 2 "[2, 1]" 0]
  by simp

text \<open>
  Claim C1 as stated fails: agent 1 ranks 1 and 2, the tied winners are 3 and 4, and the
  resolver returns \<^verbatim>\<open>None\<close> instead of failing.
\<close>

theorem tie_break_no_match_is_not_an_error:
  "tie_break_function 0 [(1, [1, 2])] (PyInt 1) [3, 4] = Inr None"
  by (simp add: tie_break_function_def)

text \<open>
  Claim C8, as the code has it. A winner list of exactly one element is returned at once,
  whatever the policy. The invalid-policy error is raised exactly when the list does not
  have exactly one element (it has more than one, or none) and the policy is none of the
  three keywords and no agent of the profile.
\<close>

theorem tie_break_single_and_invalid_policy:
  "(length winners = 1 \<longrightarrow>
      tie_break_function rnd preferences tie_break winners = Inr (Some (winners ! 0))) \<and>
   (tie_break_function rnd preferences tie_break winners = Inl InvalidTieBreak \<longleftrightarrow>
      length winners \<noteq> 1 \<and> tie_break \<noteq> PyStr ''max'' \<and> tie_break \<noteq> PyStr ''min'' \<and>
      tie_break \<noteq> PyStr ''random'' \<and>
      (case tie_break of PyInt agent \<Rightarrow> map_of preferences agent = None | PyStr _ \<Rightarrow> True))"
  using tie_break_function_single tie_break_function_invalid_iff by blast

theorem tie_break_single_and_invalid_policy_witness:
  "tie_break_function 0 [(1, [1, 2])] (PyStr ''foo'') [2] = Inr (Some 2) \<and>
   tie_break_function 0 [(1, [1, 2])] (PyInt 7) [1, 2] = Inl InvalidTieBreak"
  using tie_break_single_and_invalid_policy [of "[2]" 0 "[(1, [1, 2])]" "PyStr ''foo''"]
        tie_break_single_and_invalid_policy [of "[1, 2]" 0 "[(1, [1, 2])]" "PyInt 7"]
  by simp

text \<open>
  Claim C8 as stated fails in its second half: with the empty winner list (what STV
  passes after a round that strikes every live alternative) an invalid policy raises the
  error although the list has no more than one element.
\<close>

theorem tie_break_invalid_policy_on_empty_winners:
  "tie_break_function 0 [(1, []), (2, [])] (PyStr ''foo'') [] = Inl InvalidTieBreak \<and>
   length ([] :: int list) = 0"
  by (simp add: tie_break_function_def)

section \<open>Dictatorship: results\<close>

text \<open>
  Claim C9, as the code has it. When the agent is a key of the profile and its ranking is
  not empty, dictatorship returns the first alternative of the ranking; when the ranking
  is empty the index fails; the agent-not-found error (the spec's UnknownAgent) is raised
  if and only if the agent is not a key of the profile.
\<close>

theorem dictatorship_result:
  "(map_of preferences agent = Some (alt # rest) \<longrightarrow> dictatorship preferences agent = Inr alt) \<and>
   (map_of preferences agent = Some [] \<longrightarrow> dictatorship preferences agent = Inl IndexError) \<and>
   (dictatorship preferences agent = Inl AgentNotFound \<longleftrightarrow> map_of preferences agent = None)"
  by (auto simp: dictatorship_def split: option.splits list.splits)

theorem dictatorship_result_witness:
  "dictatorship [(1, [2, 1, 3]), (2, [1, 2, 3])] 1 = Inr 2 \<and>
   dictatorship [(1, [2, 1, 3]), (2, [])] 2 = Inl IndexError \<and>
   dictatorship [(1, [2, 1, 3]), (2, [1, 2, 3])] 99 = Inl AgentNotFound"
  using dictatorship_result [of "[(1, [2, 1, 3]), (2, [1, 2, 3])]" 1 2 "[1, 3]"]
        dictatorship_result [of "[(1, [2, 1, 3]), (2, [])]" 2]
        dictatorship_result [of "[(1, [2, 1, 3]), (2, [1, 2, 3])]" 99]
  by simp

text \<open>
  Claim C9 as stated fails: agent 1 is a key of the profile, its ranking is empty (a table
  without columns, or a profile that STV has emptied), and dictatorship returns no
  alternative.
\<close>

theorem dictatorship_empty_ranking:
  "dictatorship [(1, [])] 1 = Inl IndexError"
  by (simp add: dictatorship_def)

section \<open>Rules that read agent 1 first\<close>

text \<open>
  Claim C10. The scoring rule, veto, Borda and STV look up \<^verbatim>\<open>preferences[1]\<close> before
  anything else, so on every profile without the key 1 (the empty profile of an empty
  table among them) each of the four fails with the lookup's \<^verbatim>\<open>KeyError\<close>, whatever
  the score vector and the policy.
\<close>

theorem rules_fail_without_agent_1:
  "map_of preferences 1 = None \<Longrightarrow>
     scoring_rule rnd preferences score_vector tie_break = Inl KeyError \<and>
     veto rnd preferences tie_break = Inl KeyError \<and>
     borda rnd preferences tie_break = Inl KeyError \<and>
     STV rnd preferences tie_break = Inl KeyError"
  by (simp add: scoring_rule_def scoring_rule_winners_def veto_def veto_winners_def
        borda_def borda_winners_def STV_def STV_winners_def)

theorem rules_fail_without_agent_1_witness:
  "generate_preferences \<lparr>max_row = 0, max_column = 0, cell = (\<lambda>r c. 0 :: int)\<rparr> = [] \<and>
   scoring_rule 0 [] [1, 0 :: int] (PyStr ''max'') = Inl KeyError \<and>
   veto 0 [] (PyStr ''max'') = Inl KeyError \<and>
   borda 0 [] (PyStr ''max'') = Inl KeyError \<and>
   STV 0 [] (PyStr ''max'') = Inl KeyError \<and>
   STV 0 [(2, [1, 2])] (PyInt 2) = Inl KeyError"
  using rules_fail_without_agent_1 [of "[]" 0 "[1, 0 :: int]" "PyStr ''max''"]
        rules_fail_without_agent_1 [of "[(2, [1, 2])]" 0 "[1, 0 :: int]" "PyInt 2"]
  by (simp add: generate_preferences_def)

section \<open>STV: the emptied live set\<close>

lemma keys_strike: "map fst (strike eliminated preferences) = map fst preferences"
  by (simp add: strike_def case_prod_unfold comp_def)

lemma keys_STV_round:
  "STV_round alternatives preferences = Inr (alternatives', preferences') \<Longrightarrow>
     map fst preferences' = map fst preferences"
  by (auto simp: STV_round_def keys_strike split: sum.splits)

lemma keys_STV_loop:
  "STV_loop alternatives preferences = Inr (alternatives', preferences') \<Longrightarrow>
     map fst preferences' = map fst preferences"
proof (induction alternatives preferences rule: STV_loop.induct)
  case (1 alternatives preferences)
  show ?case
  proof (cases "1 < length alternatives")
    case True
    with "1.prems" obtain a p where r: "STV_round alternatives preferences = Inr (a, p)"
      and l: "STV_loop a p = Inr (alternatives', preferences')"
      by (subst (asm) STV_loop.simps) (auto split: sum.splits)
    from "1.IH"[OF True r refl l] keys_STV_round[OF r] show ?thesis by simp
  next
    case False
    with "1.prems" show ?thesis by (subst (asm) STV_loop.simps) simp
  qed
qed

lemma keys_STV_winners:
  "STV_winners preferences = Inr (alternatives, preferences') \<Longrightarrow>
     map fst preferences' = map fst preferences"
  by (auto simp: STV_winners_def split: option.splits dest: keys_STV_loop)

text \<open>
  Claim C7, as the code has it. When a round strikes every live alternative, STV hands
  the empty list to the resolver and has no error of its own: the keywords max and min
  fail inside \<^verbatim>\<open>max\<close> and \<^verbatim>\<open>min\<close> (empty sequence), random fails inside
  \<^verbatim>\<open>random.choice\<close>, an agent of the profile makes STV return \<^verbatim>\<open>None\<close>, and any other
  policy is the invalid-policy error.
\<close>

theorem STV_empty_live_set:
  "STV_winners preferences = Inr ([], preferences') \<Longrightarrow>
     STV rnd preferences tie_break =
       (if tie_break = PyStr ''max'' \<or> tie_break = PyStr ''min'' then Inl EmptySequence
        else if tie_break = PyStr ''random'' then Inl IndexError
        else (case tie_break of
                PyInt agent \<Rightarrow>
                  if agent \<in> set (map fst preferences) then Inr None else Inl InvalidTieBreak
              | PyStr _ \<Rightarrow> Inl InvalidTieBreak))"
proof -
  assume w: "STV_winners preferences = Inr ([], preferences')"
  have k: "map_of preferences' agent = None \<longleftrightarrow> agent \<notin> set (map fst preferences)" for agent
    unfolding keys_STV_winners[OF w, symmetric] by (simp add: map_of_eq_None_iff)
  show ?thesis
  proof (cases tie_break)
    case (PyStr s)
    then show ?thesis
      by (simp add: STV_def w tie_break_function_def random_choice_def)
  next
    case (PyInt agent)
    show ?thesis
    proof (cases "map_of preferences' agent")
      case None
      with k[of agent] PyInt show ?thesis
        by (simp add: STV_def w tie_break_function_def)
    next
      case (Some pref)
      with k[of agent] have "agent \<in> set (map fst preferences)" by auto
      with Some PyInt show ?thesis
        by (simp add: STV_def w tie_break_function_def find_None_iff)
    qed
  qed
qed

lemma STV_winners_wipeout:
  "STV_winners [(1, [1, 2]), (2, [2, 1])] = Inr ([], [(1, []), (2, [])])"
  by (simp add: STV_winners_def STV_loop.simps STV_round_def STV_eliminated_def STV_counts_def
          dict_from_keys_def strike_def)

theorem STV_empty_live_set_witness:
  "STV_winners [(1, [1, 2]), (2, [2, 1])] = Inr ([], [(1, []), (2, [])]) \<and>
   STV 0 [(1, [1, 2]), (2, [2, 1])] (PyStr ''max'') = Inl EmptySequence \<and>
   STV 0 [(1, [1, 2]), (2, [2, 1])] (PyStr ''random'') = Inl IndexError \<and>
   STV 0 [(1, [1, 2]), (2, [2, 1])] (PyInt 2) = Inr None \<and>
   STV 0 [(1, [1, 2]), (2, [2, 1])] (PyInt 3) = Inl InvalidTieBreak"
  using STV_winners_wipeout
    STV_empty_live_set [OF STV_winners_wipeout, of 0 "PyStr ''max''"]
    STV_empty_live_set [OF STV_winners_wipeout, of 0 "PyStr ''random''"]
    STV_empty_live_set [OF STV_winners_wipeout, of 0 "PyInt 2"]
    STV_empty_live_set [OF STV_winners_wipeout, of 0 "PyInt 3"]
  by simp

text \<open>
  Claim C7 as stated fails: two agents, two alternatives, each the top choice of one
  agent; the first round strikes both, and with agent 1 as the policy STV returns
  \<^verbatim>\<open>None\<close> and raises nothing.
\<close>

theorem STV_wipeout_returns_None:
  "STV 0 [(1, [1, 2]), (2, [2, 1])] (PyInt 1) = Inr None"
  by (simp add: STV_def STV_winners_wipeout tie_break_function_def)

section \<open>Rule output membership\<close>

lemma resolved_winner_mem:
  "(case w of Inl e \<Rightarrow> Inl e | Inr winners \<Rightarrow> tie_break_function rnd preferences tie_break winners)
      = Inr (Some alt) \<Longrightarrow>
   \<exists>winners. w = Inr winners \<and> alt \<in> set winners"
  by (cases w) (auto dest: tie_break_function_mem)

lemma dictatorship_mem:
  "dictatorship preferences agent = Inr alt \<Longrightarrow>
     \<exists>rest. map_of preferences agent = Some (alt # rest)"
  by (auto simp: dictatorship_def split: option.splits list.splits)

lemma STV_mem:
  "STV rnd preferences tie_break = Inr (Some alt) \<Longrightarrow>
     \<exists>winners preferences'. STV_winners preferences = Inr (winners, preferences') \<and>
        alt \<in> set winners"
  by (cases "STV_winners preferences") (auto simp: STV_def dest: tie_break_function_mem)

lemma range_voting_mem:
  "range_voting rnd values tie_break = Inr (Some alt) \<Longrightarrow>
     \<exists>winners. range_voting_winners values = Inr winners \<and> alt \<in> set winners"
  unfolding range_voting_def Let_def by (rule resolved_winner_mem)

text \<open>
  Claim C2, as the code has it. Whenever a rule returns an alternative, that alternative
  is an element of the winner list the rule computed before the resolver ran. (A rule
  can also return \<^verbatim>\<open>None\<close>, which is no alternative: see the counterexample.)
  Dictatorship computes no winner list; its one candidate is the first alternative of
  the agent's ranking, and that is what it returns. The statement covers every policy,
  every draw of the random policy and every float arithmetic of the harmonic rule.
\<close>

theorem rule_output_membership:
  "(dictatorship preferences agent = Inr alt \<longrightarrow>
      (\<exists>rest. map_of preferences agent = Some (alt # rest))) \<and>
   (scoring_rule rnd preferences score_vector tie_break = Inr (Some alt) \<longrightarrow>
      (\<exists>winners. scoring_rule_winners preferences score_vector = Inr winners \<and> alt \<in> set winners)) \<and>
   (plurality rnd preferences tie_break = Inr (Some alt) \<longrightarrow>
      (\<exists>winners. plurality_winners preferences = Inr winners \<and> alt \<in> set winners)) \<and>
   (veto rnd preferences tie_break = Inr (Some alt) \<longrightarrow>
      (\<exists>winners. veto_winners preferences = Inr winners \<and> alt \<in> set winners)) \<and>
   (borda rnd preferences tie_break = Inr (Some alt) \<longrightarrow>
      (\<exists>winners. borda_winners preferences = Inr winners \<and> alt \<in> set winners)) \<and>
   (harmonic one_over rnd preferences tie_break = Inr (Some alt) \<longrightarrow>
      (\<exists>winners. harmonic_winners one_over preferences = Inr winners \<and> alt \<in> set winners)) \<and>
   (STV rnd preferences tie_break = Inr (Some alt) \<longrightarrow>
      (\<exists>winners preferences'. STV_winners preferences = Inr (winners, preferences') \<and>
         alt \<in> set winners)) \<and>
   (range_voting rnd values tie_break = Inr (Some alt) \<longrightarrow>
      (\<exists>winners. range_voting_winners values = Inr winners \<and> alt \<in> set winners))"
  unfolding scoring_rule_def plurality_def veto_def borda_def harmonic_def
  using dictatorship_mem resolved_winner_mem STV_mem range_voting_mem
  by (intro conjI impI) blast+

theorem rule_output_membership_witness:
  "(\<exists>rest. map_of ([(1, [2, 1, 3]), (2, [1, 2, 3]), (3, [1, 3, 2])] :: profile) 2 = Some (1 # rest)) \<and>
   (\<exists>winners. scoring_rule_winners [(1, [2, 1, 3]), (2, [1, 2, 3]), (3, [1, 3, 2])] [3, 2, 1 :: int] = Inr winners \<and> 1 \<in> set winners) \<and>
   (\<exists>winners. plurality_winners [(1, [2, 1, 3]), (2, [1, 2, 3]), (3, [1, 3, 2])] = Inr winners \<and> 1 \<in> set winners) \<and>
   (\<exists>winners. veto_winners [(1, [2, 1, 3]), (2, [1, 2, 3]), (3, [1, 3, 2])] = Inr winners \<and> 1 \<in> set winners) \<and>
   (\<exists>winners. borda_winners [(1, [2, 1, 3]), (2, [1, 2, 3]), (3, [1, 3, 2])] = Inr winners \<and> 1 \<in> set winners) \<and>
   (\<exists>winners. harmonic_winners (\<lambda>k. 1 / rat_of_nat k) [(1, [2, 1, 3]), (2, [1, 2, 3]), (3, [1, 3, 2])] = Inr winners \<and> 1 \<in> set winners) \<and>
   (\<exists>winners preferences'. STV_winners [(1, [2, 1, 3]), (2, [1, 2, 3]), (3, [1, 3, 2])] = Inr (winners, preferences') \<and> 1 \<in> set winners) \<and>
   (\<exists>winners. range_voting_winners \<lparr>max_row = 2, max_column = 2, cell = (\<lambda>r c. if c = 1 then 3 else 1 :: int)\<rparr> = Inr winners \<and> 1 \<in> set winners)"
proof -
  have "dictatorship [(1, [2, 1, 3]), (2, [1, 2, 3]), (3, [1, 3, 2])] 2 = Inr 1"
    and "scoring_rule 0 [(1, [2, 1, 3]), (2, [1, 2, 3]), (3, [1, 3, 2])] [3, 2, 1 :: int] (PyStr ''max'') = Inr (Some 1)"
    and "plurality 0 [(1, [2, 1, 3]), (2, [1, 2, 3]), (3, [1, 3, 2])] (PyStr ''max'') = Inr (Some 1)"
    and "veto 0 [(1, [2, 1, 3]), (2, [1, 2, 3]), (3, [1, 3, 2])] (PyStr ''max'') = Inr (Some 1)"
    and "borda 0 [(1, [2, 1, 3]), (2, [1, 2, 3]), (3, [1, 3, 2])] (PyStr ''max'') = Inr (Some 1)"
    and "harmonic (\<lambda>k. 1 / rat_of_nat k) 0 [(1, [2, 1, 3]), (2, [1, 2, 3]), (3, [1, 3, 2])] (PyStr ''max'') = Inr (Some 1)"
    and "STV 0 [(1, [2, 1, 3]), (2, [1, 2, 3]), (3, [1, 3, 2])] (PyStr ''max'') = Inr (Some 1)"
    and "range_voting 0 \<lparr>max_row = 2, max_column = 2, cell = (\<lambda>r c. if c = 1 then 3 else 1 :: int)\<rparr> (PyStr ''max'') = Inr (Some 1)"
    by code_simp+
  with rule_output_membership [of "[(1, [2, 1, 3]), (2, [1, 2, 3]), (3, [1, 3, 2])]" 2 1 0 "[3, 2, 1 :: int]" "PyStr ''max''" "\<lambda>k. 1 / rat_of_nat k" "\<lparr>max_row = 2, max_column = 2, cell = (\<lambda>r c. if c = 1 then 3 else 1 :: int)\<rparr>"]
  show ?thesis by blast
qed

text \<open>
  Claim C2 as stated fails: three agents rank three alternatives cyclically, the first
  STV round strikes all three, and with agent 3 as the policy STV returns normally, with
  \<^verbatim>\<open>None\<close>, which is no element of the (empty) winner list.
\<close>

theorem STV_returns_outside_the_winner_list:
  "STV 0 [(1, [1, 2, 3]), (2, [2, 3, 1]), (3, [3, 1, 2])] (PyInt 3) = Inr None \<and>
   STV_winners [(1, [1, 2, 3]), (2, [2, 3, 1]), (3, [3, 1, 2])] = Inr ([], [(1, []), (2, []), (3, [])])"
  by code_simp

section \<open>Profile construction: results\<close>

lemma insort_key_tiebreak:
  assumes "sorted_wrt (\<lambda>p q. f p < f q \<or> (f p = f q \<and> R p q)) ys"
    and "\<forall>y\<in>set ys. R x y"
  shows "sorted_wrt (\<lambda>p q. f p < f q \<or> (f p = f q \<and> R p q)) (insort_key f x ys)"
  using assms by (induction ys) (auto simp: set_insort_key)

lemma sort_key_tiebreak:
  "sorted_wrt R xs \<Longrightarrow>
     sorted_wrt (\<lambda>p q. f p < f q \<or> (f p = f q \<and> R p q)) (sort_key f xs)"
  by (induction xs) (auto intro: insort_key_tiebreak)

lemma sorted_reverse_order:
  assumes "sorted_wrt R xs"
  shows "sorted_wrt (\<lambda>p q. key q < key p \<or> (key p = key q \<and> R p q)) (sorted_reverse key xs)"
proof -
  from assms have "sorted_wrt (\<lambda>p q. R q p) (rev xs)"
    by (simp add: sorted_wrt_rev)
  then have "sorted_wrt (\<lambda>p q. key p < key q \<or> (key p = key q \<and> R q p)) (sort_key key (rev xs))"
    by (rule sort_key_tiebreak)
  then have "sorted_wrt (\<lambda>q p. key p < key q \<or> (key p = key q \<and> R q p))
      (rev (sort_key key (rev xs)))"
    by (simp add: sorted_wrt_rev)
  then show ?thesis
    unfolding sorted_reverse_def by (rule sorted_wrt_mono_rel[rotated]) auto
qed

lemma set_sorted_reverse: "set (sorted_reverse key xs) = set xs"
  by (simp add: sorted_reverse_def)

lemma distinct_sorted_reverse: "distinct (sorted_reverse key xs) = distinct xs"
  by (simp add: sorted_reverse_def)

lemma enumerate1_cells:
  "enumerate1 (map g [1..n]) = map (\<lambda>col. (col, g col)) [1..n]"
proof -
  have "[1..int (nat n)] = [1..n]" by (cases "0 \<le> n") simp_all
  then show ?thesis
    by (simp add: enumerate1_def zip_map2 zip_same_conv_map comp_def)
qed

text \<open>
  The ranking that \<open>generate_preferences\<close> stores for a row, with its two passes put
  together (the lemma after it shows that this is what the function computes).
\<close>

definition ranking_of :: "('v::linorder) table \<Rightarrow> int \<Rightarrow> int list" where
  "ranking_of t row =
     map fst (sorted_reverse snd (map (\<lambda>col. (col, cell t row col)) [1..max_column t]))"

lemma generate_preferences_rows:
  "generate_preferences t = map (\<lambda>row. (row, ranking_of t row)) [1..max_row t]"
  by (simp add: generate_preferences_def ranking_of_def enumerate1_cells comp_def)

lemma ranking_of_props:
  fixes t :: "('v::linorder) table"
  shows "distinct (ranking_of t row)"
    and "set (ranking_of t row) = {1..max_column t}"
    and "sorted_wrt (\<lambda>a b. cell t row b < cell t row a \<or> (cell t row a = cell t row b \<and> a < b))
           (ranking_of t row)"
proof -
  let ?ps = "map (\<lambda>col. (col, cell t row col)) [1..max_column t]"
  let ?qs = "sorted_reverse snd ?ps"
  have pairs: "snd p = cell t row (fst p)" if "p \<in> set ?qs" for p
    using that by (auto simp: set_sorted_reverse)
  have "distinct ?ps" by (simp add: distinct_map inj_on_def)
  have "inj_on fst (set ?qs)" by (auto simp: inj_on_def set_sorted_reverse)
  moreover have "distinct ?qs"
    using \<open>distinct ?ps\<close> by (simp add: distinct_sorted_reverse)
  ultimately show "distinct (ranking_of t row)"
    unfolding ranking_of_def by (simp add: distinct_map)
  show "set (ranking_of t row) = {1..max_column t}"
    unfolding ranking_of_def by (force simp: set_sorted_reverse)
  have "sorted_wrt (\<lambda>p q. fst p < fst q) ?ps"
    by (simp add: sorted_wrt_map)
  then have "sorted_wrt (\<lambda>p q. snd q < snd p \<or> (snd p = snd q \<and> fst p < fst q)) ?qs"
    by (rule sorted_reverse_order)
  then have "sorted_wrt (\<lambda>p q. cell t row (fst q) < cell t row (fst p) \<or>
       (cell t row (fst p) = cell t row (fst q) \<and> fst p < fst q)) ?qs"
    by (rule sorted_wrt_mono_rel[rotated]) (auto simp: pairs)
  then show "sorted_wrt (\<lambda>a b. cell t row b < cell t row a \<or> (cell t row a = cell t row b \<and> a < b))
           (ranking_of t row)"
    unfolding ranking_of_def by (simp add: sorted_wrt_map)
qed

text \<open>
  Claim C3. The keys of the profile are the rows 1 to \<open>max_row\<close> in order, and the
  ranking of every row is a permutation of the columns 1 to \<open>max_column\<close> (no
  duplicates, exactly these elements) in which an alternative stands before another only
  if its cell value is strictly greater, or equal with the smaller column index: descending
  by value, equal values in column order.
\<close>

theorem generate_preferences_rankings:
  fixes t :: "('v::linorder) table"
  shows "map fst (generate_preferences t) = [1..max_row t] \<and>
   (\<forall>row \<in> {1..max_row t}. \<exists>ranking.
       map_of (generate_preferences t) row = Some ranking \<and>
       distinct ranking \<and> set ranking = {1..max_column t} \<and>
       sorted_wrt (\<lambda>a b. cell t row b < cell t row a \<or> (cell t row a = cell t row b \<and> a < b))
         ranking)"
proof (intro conjI ballI)
  show "map fst (generate_preferences t) = [1..max_row t]"
    by (simp add: generate_preferences_rows comp_def)
next
  fix row assume "row \<in> {1..max_row t}"
  then have "map_of (generate_preferences t) row = Some (ranking_of t row)"
    by (simp add: generate_preferences_rows map_of_map_restrict)
  with ranking_of_props[of t row]
  show "\<exists>ranking. map_of (generate_preferences t) row = Some ranking \<and>
       distinct ranking \<and> set ranking = {1..max_column t} \<and>
       sorted_wrt (\<lambda>a b. cell t row b < cell t row a \<or> (cell t row a = cell t row b \<and> a < b))
         ranking"
    by blast
qed

theorem generate_preferences_rankings_witness:
  "map_of (generate_preferences
      \<lparr>max_row = 2, max_column = 3, cell = (\<lambda>r c. if r = 1 then (if c = 2 then 7 else 5) else (1 :: int))\<rparr>) 1
     = Some [2, 1, 3] \<and>
   distinct [2, 1, 3 :: int] \<and>
   set [2, 1, 3] = {1..max_column
      \<lparr>max_row = 2, max_column = 3, cell = (\<lambda>r c. if r = 1 then (if c = 2 then 7 else 5) else (1 :: int))\<rparr>} \<and>
   sorted_wrt
     (\<lambda>a b. cell \<lparr>max_row = 2, max_column = 3, cell = (\<lambda>r c. if r = 1 then (if c = 2 then 7 else 5) else (1 :: int))\<rparr> 1 b
              < cell \<lparr>max_row = 2, max_column = 3, cell = (\<lambda>r c. if r = 1 then (if c = 2 then 7 else 5) else (1 :: int))\<rparr> 1 a \<or>
            (cell \<lparr>max_row = 2, max_column = 3, cell = (\<lambda>r c. if r = 1 then (if c = 2 then 7 else 5) else (1 :: int))\<rparr> 1 a
              = cell \<lparr>max_row = 2, max_column = 3, cell = (\<lambda>r c. if r = 1 then (if c = 2 then 7 else 5) else (1 :: int))\<rparr> 1 b \<and>
             a < b))
     [2, 1, 3]"
proof -
  let ?t = "\<lparr>max_row = 2, max_column = 3, cell = (\<lambda>r c. if r = 1 then (if c = 2 then 7 else 5) else (1 :: int))\<rparr>"
  have g: "map_of (generate_preferences ?t) 1 = Some [2, 1, 3]"
    by code_simp
  from generate_preferences_rankings [of ?t]
  have "\<forall>row \<in> {1..max_row ?t}. \<exists>ranking.
       map_of (generate_preferences ?t) row = Some ranking \<and>
       distinct ranking \<and> set ranking = {1..max_column ?t} \<and>
       sorted_wrt (\<lambda>a b. cell ?t row b < cell ?t row a \<or> (cell ?t row a = cell ?t row b \<and> a < b))
         ranking"
    by (rule conjunct2)
  then have "\<exists>ranking.
       map_of (generate_preferences ?t) 1 = Some ranking \<and>
       distinct ranking \<and> set ranking = {1..max_column ?t} \<and>
       sorted_wrt (\<lambda>a b. cell ?t 1 b < cell ?t 1 a \<or> (cell ?t 1 a = cell ?t 1 b \<and> a < b))
         ranking"
    by (rule bspec) simp
  then obtain ranking where r: "map_of (generate_preferences ?t) 1 = Some ranking"
    and p: "distinct ranking" "set ranking = {1..max_column ?t}"
      "sorted_wrt (\<lambda>a b. cell ?t 1 b < cell ?t 1 a \<or> (cell ?t 1 a = cell ?t 1 b \<and> a < b)) ranking"
    by blast
  from r g have "ranking = [2, 1, 3]" by (simp only: option.inject)
  with g p show ?thesis by (simp only:) 
qed

section \<open>STV: rounds and termination\<close>

lemma py_min_least:
  fixes xs :: "('a::linorder) list"
  assumes "py_min xs = Inr m"
  shows "\<forall>x\<in>set xs. m \<le> x"
proof (cases xs)
  case Nil
  then show ?thesis by simp
next
  case (Cons x ys)
  have "\<forall>y\<in>insert b (set ys). foldl (\<lambda>best y. if y < best then y else best) b ys \<le> y"
    for b :: 'a
  proof (induction ys arbitrary: b)
    case Nil
    show ?case by simp
  next
    case (Cons z zs)
    have step: "foldl (\<lambda>best y. if y < best then y else best) (if z < b then z else b) zs
        \<le> (if z < b then z else b)"
      using Cons.IH[of "if z < b then z else b"] by blast
    show ?case
      using Cons.IH[of "if z < b then z else b"] step by (auto split: if_splits)
  qed
  with assms Cons show ?thesis by auto
qed

lemma STV_round_facts:
  assumes "alternatives \<noteq> []"
  shows "\<exists>eliminated min_count.
      py_min (map snd (STV_counts alternatives preferences)) = Inr min_count \<and>
      (\<forall>cnt\<in>set (map snd (STV_counts alternatives preferences)). min_count \<le> cnt) \<and>
      STV_eliminated alternatives preferences = Inr eliminated \<and>
      eliminated \<noteq> [] \<and>
      set eliminated = {alt. (alt, min_count) \<in> set (STV_counts alternatives preferences)} \<and>
      set eliminated \<subseteq> set alternatives \<and>
      STV_round alternatives preferences =
        Inr (filter (\<lambda>alt. alt \<notin> set eliminated) alternatives, strike eliminated preferences) \<and>
      length (filter (\<lambda>alt. alt \<notin> set eliminated) alternatives) < length alternatives"
proof -
  let ?counts = "STV_counts alternatives preferences"
  from assms have "set (map fst ?counts) \<noteq> {}"
    unfolding keys_STV_counts by simp
  then have "map snd ?counts \<noteq> []" by auto
  then obtain mn where mn: "py_min (map snd ?counts) = Inr mn"
    by (cases "map snd ?counts") auto
  define eliminated where "eliminated = map fst (filter (\<lambda>(alt, cnt). cnt = mn) ?counts)"
  have el: "STV_eliminated alternatives preferences = Inr eliminated"
    by (simp add: STV_eliminated_def mn eliminated_def)
  have r: "STV_round alternatives preferences =
        Inr (filter (\<lambda>alt. alt \<notin> set eliminated) alternatives, strike eliminated preferences)"
    by (simp add: STV_round_def el)
  have "set eliminated = {alt. (alt, mn) \<in> set ?counts}"
    unfolding eliminated_def by force
  with mn py_min_least[OF mn] el STV_eliminated_props[OF el] r STV_round_shrinks[OF r]
  show ?thesis by blast
qed

lemma STV_loop_rounds:
  "\<exists>k alternatives' preferences'.
      k \<le> length alternatives - 1 \<and>
      STV_loop alternatives preferences = Inr (alternatives', preferences') \<and>
      STV_iter k alternatives preferences = Inr (alternatives', preferences') \<and>
      length alternatives' \<le> 1 \<and>
      (\<forall>j<k. \<exists>a p. STV_iter j alternatives preferences = Inr (a, p) \<and> 1 < length a)"
proof (induction alternatives preferences rule: STV_loop.induct)
  case (1 alternatives preferences)
  show ?case
  proof (cases "1 < length alternatives")
    case False
    then have "STV_loop alternatives preferences = Inr (alternatives, preferences)"
      by (subst STV_loop.simps) simp
    with False show ?thesis
      by (intro exI[of _ 0] exI[of _ alternatives] exI[of _ preferences]) simp
  next
    case True
    then have "alternatives \<noteq> []" by auto
    from STV_round_facts[OF this, of preferences]
    obtain a' p' where r: "STV_round alternatives preferences = Inr (a', p')"
      and less: "length a' < length alternatives"
      by blast
    from "1.IH"[OF True r refl] obtain k alternatives' preferences' where
      k: "k \<le> length a' - 1"
      and l: "STV_loop a' p' = Inr (alternatives', preferences')"
      and i: "STV_iter k a' p' = Inr (alternatives', preferences')"
      and f: "length alternatives' \<le> 1"
      and g: "\<forall>j<k. \<exists>a p. STV_iter j a' p' = Inr (a, p) \<and> 1 < length a"
      by blast
    have "STV_loop alternatives preferences = Inr (alternatives', preferences')"
      using True r l by (subst STV_loop.simps) simp
    moreover have "STV_iter (Suc k) alternatives preferences = Inr (alternatives', preferences')"
      using r i by simp
    moreover have "Suc k \<le> length alternatives - 1"
      using k less True by arith
    moreover have "\<exists>a p. STV_iter j alternatives preferences = Inr (a, p) \<and> 1 < length a"
      if "j < Suc k" for j
    proof (cases j)
      case 0
      with True show ?thesis by simp
    next
      case (Suc j')
      with that have "j' < k" by simp
      with g obtain a p where "STV_iter j' a' p' = Inr (a, p)" "1 < length a" by blast
      with Suc r show ?thesis by simp
    qed
    ultimately show ?thesis using f by blast
  qed
qed

text \<open>
  Claim C6. First conjunct: while more than one alternative is live, a round computes the
  minimum tally, strikes exactly the live alternatives whose tally is that minimum, of
  which there is at least one, and so leaves strictly fewer live alternatives. Second
  conjunct: the loop returns; its result is the state after exactly \<open>k\<close> rounds, with
  \<open>k\<close> at most the number of live alternatives at the start minus one (no round at all
  when there are fewer than two), the loop condition holds before each of these rounds
  and fails after the last. Third conjunct: STV starts the loop from the distinct
  alternatives of agent 1's ranking, so the live list has as many elements as the profile
  has alternatives.
\<close>

theorem STV_rounds_shrink_and_terminate:
  "(1 < length alternatives \<longrightarrow>
      (\<exists>eliminated min_count.
         py_min (map snd (STV_counts alternatives preferences)) = Inr min_count \<and>
         (\<forall>cnt\<in>set (map snd (STV_counts alternatives preferences)). min_count \<le> cnt) \<and>
         STV_eliminated alternatives preferences = Inr eliminated \<and>
         eliminated \<noteq> [] \<and>
         set eliminated = {alt. (alt, min_count) \<in> set (STV_counts alternatives preferences)} \<and>
         set eliminated \<subseteq> set alternatives \<and>
         STV_round alternatives preferences =
           Inr (filter (\<lambda>alt. alt \<notin> set eliminated) alternatives, strike eliminated preferences) \<and>
         length (filter (\<lambda>alt. alt \<notin> set eliminated) alternatives) < length alternatives)) \<and>
   (\<exists>k alternatives' preferences'.
      k \<le> length alternatives - 1 \<and>
      STV_loop alternatives preferences = Inr (alternatives', preferences') \<and>
      STV_iter k alternatives preferences = Inr (alternatives', preferences') \<and>
      length alternatives' \<le> 1 \<and>
      (\<forall>j<k. \<exists>a p. STV_iter j alternatives preferences = Inr (a, p) \<and> 1 < length a)) \<and>
   (map_of preferences 1 = Some pref1 \<longrightarrow>
      STV_winners preferences = STV_loop (remdups pref1) preferences \<and>
      length (remdups pref1) = card (set pref1))"
proof (intro conjI impI)
  assume "1 < length alternatives"
  then have "alternatives \<noteq> []" by auto
  then show "\<exists>eliminated min_count.
         py_min (map snd (STV_counts alternatives preferences)) = Inr min_count \<and>
         (\<forall>cnt\<in>set (map snd (STV_counts alternatives preferences)). min_count \<le> cnt) \<and>
         STV_eliminated alternatives preferences = Inr eliminated \<and>
         eliminated \<noteq> [] \<and>
         set eliminated = {alt. (alt, min_count) \<in> set (STV_counts alternatives preferences)} \<and>
         set eliminated \<subseteq> set alternatives \<and>
         STV_round alternatives preferences =
           Inr (filter (\<lambda>alt. alt \<notin> set eliminated) alternatives, strike eliminated preferences) \<and>
         length (filter (\<lambda>alt. alt \<notin> set eliminated) alternatives) < length alternatives"
    by (rule STV_round_facts)
next
  show "\<exists>k alternatives' preferences'.
      k \<le> length alternatives - 1 \<and>
      STV_loop alternatives preferences = Inr (alternatives', preferences') \<and>
      STV_iter k alternatives preferences = Inr (alternatives', preferences') \<and>
      length alternatives' \<le> 1 \<and>
      (\<forall>j<k. \<exists>a p. STV_iter j alternatives preferences = Inr (a, p) \<and> 1 < length a)"
    by (rule STV_loop_rounds)
next
  assume "map_of preferences 1 = Some pref1"
  then show "STV_winners preferences = STV_loop (remdups pref1) preferences"
    by (simp add: STV_winners_def)
next
  show "length (remdups pref1) = card (set pref1)"
    by (rule length_remdups_card_conv)
qed

lemma ex_eliminated_shrinks:
  "\<exists>eliminated min_count. Q min_count \<and> R min_count \<and> E eliminated \<and> N eliminated \<and>
      S eliminated min_count \<and> U eliminated \<and> V eliminated \<and> L eliminated \<Longrightarrow>
   \<exists>eliminated. E eliminated \<and> N eliminated \<and> L eliminated"
  by (elim exE conjE) (intro exI conjI)

theorem STV_rounds_shrink_and_terminate_witness:
  "STV_loop [2, 1, 3] [(1, [2, 1, 3]), (2, [1, 2, 3]), (3, [1, 3, 2])] = Inr ([1], [(1, [1]), (2, [1]), (3, [1])]) \<and>
   STV_iter 2 [2, 1, 3] [(1, [2, 1, 3]), (2, [1, 2, 3]), (3, [1, 3, 2])] = Inr ([1], [(1, [1]), (2, [1]), (3, [1])]) \<and>
   STV_eliminated [2, 1, 3] [(1, [2, 1, 3]), (2, [1, 2, 3]), (3, [1, 3, 2])] = Inr [3] \<and>
   (\<exists>eliminated. STV_eliminated [2, 1, 3] [(1, [2, 1, 3]), (2, [1, 2, 3]), (3, [1, 3, 2])] = Inr eliminated \<and>
      eliminated \<noteq> [] \<and>
      length (filter (\<lambda>alt. alt \<notin> set eliminated) [2, 1, 3]) < length ([2, 1, 3] :: int list)) \<and>
   (\<exists>k alternatives' preferences'.
      k \<le> length ([2, 1, 3] :: int list) - 1 \<and>
      STV_loop [2, 1, 3] [(1, [2, 1, 3]), (2, [1, 2, 3]), (3, [1, 3, 2])] = Inr (alternatives', preferences') \<and>
      STV_iter k [2, 1, 3] [(1, [2, 1, 3]), (2, [1, 2, 3]), (3, [1, 3, 2])] = Inr (alternatives', preferences') \<and>
      length alternatives' \<le> 1 \<and>
      (\<forall>j<k. \<exists>a p. STV_iter j [2, 1, 3] [(1, [2, 1, 3]), (2, [1, 2, 3]), (3, [1, 3, 2])] = Inr (a, p) \<and> 1 < length a)) \<and>
   STV_winners [(1, [2, 1, 3]), (2, [1, 2, 3]), (3, [1, 3, 2])] = STV_loop (remdups [2, 1, 3]) [(1, [2, 1, 3]), (2, [1, 2, 3]), (3, [1, 3, 2])]"
proof -
  let ?P = "[(1, [2, 1, 3]), (2, [1, 2, 3]), (3, [1, 3, 2])] :: profile"
  note inst = STV_rounds_shrink_and_terminate [of "[2, 1, 3]" ?P "[2, 1, 3]"]
  have e1: "STV_loop [2, 1, 3] ?P = Inr ([1], [(1, [1]), (2, [1]), (3, [1])])"
    by code_simp
  have e2: "STV_iter 2 [2, 1, 3] ?P = Inr ([1], [(1, [1]), (2, [1]), (3, [1])])"
    by code_simp
  have e3: "STV_eliminated [2, 1, 3] ?P = Inr [3]"
    by code_simp
  have g: "1 < length ([2, 1, 3] :: int list)" by simp
  have a: "\<exists>eliminated. STV_eliminated [2, 1, 3] ?P = Inr eliminated \<and>
      eliminated \<noteq> [] \<and>
      length (filter (\<lambda>alt. alt \<notin> set eliminated) [2, 1, 3]) < length ([2, 1, 3] :: int list)"
    by (rule ex_eliminated_shrinks) (rule mp [OF conjunct1 [OF inst] g])
  have m: "map_of ?P 1 = Some [2, 1, 3]" by simp
  have c: "STV_winners ?P = STV_loop (remdups [2, 1, 3]) ?P"
    by (rule conjunct1 [OF mp [OF conjunct2 [OF conjunct2 [OF inst]] m]])
  note b = conjunct1 [OF conjunct2 [OF inst]]
  from e1 e2 e3 a b c show ?thesis by (intro conjI)
qed

section \<open>The scoring rule against Borda, veto and plurality\<close>

subsection \<open>Dictionaries\<close>

lemma map_of_fold_update:
  "map_of (fold (\<lambda>k d. AList.update k v d) ks d0) k =
     (if k \<in> set ks then Some v else map_of d0 k)"
  by (induction ks arbitrary: d0) (simp_all add: update_conv')

lemma map_of_dict_from_keys:
  "map_of (dict_from_keys ks v) k = (if k \<in> set ks then Some v else None)"
  by (simp add: dict_from_keys_def map_of_fold_update)

lemma distinct_fold_update:
  "distinct (map fst d0) \<Longrightarrow> distinct (map fst (fold (\<lambda>k d. AList.update k v d) ks d0))"
  by (induction ks arbitrary: d0) (simp_all add: distinct_update)

lemma distinct_dict_from_keys: "distinct (map fst (dict_from_keys ks v))"
  by (simp add: dict_from_keys_def distinct_fold_update)

lemma keys_dict_from_keys_image: "fst ` set (dict_from_keys ks v) = set ks"
  using keys_dict_from_keys[of ks v] by simp

subsection \<open>Maximum and minimum\<close>

lemma py_max_Max:
  fixes xs :: "('a::linorder) list"
  assumes "xs \<noteq> []"
  shows "py_max xs = Inr (Max (set xs))"
proof -
  have "foldl (\<lambda>best y. if best < y then y else best) b ys = Max (insert b (set ys))"
    for b :: 'a and ys
  proof (induction ys arbitrary: b)
    case Nil
    show ?case by simp
  next
    case (Cons y ys)
    have "(if b < y then y else b) = max b y" by (auto simp: max_def)
    moreover have "Max (insert (max b y) (set ys)) = Max (insert b (insert y (set ys)))"
      by (cases "set ys = {}") (simp_all add: max.assoc)
    ultimately show ?case using Cons.IH[of "max b y"] by simp
  qed
  with assms show ?thesis by (cases xs) simp_all
qed

lemma py_min_Min:
  fixes xs :: "('a::linorder) list"
  assumes "xs \<noteq> []"
  shows "py_min xs = Inr (Min (set xs))"
proof -
  have "foldl (\<lambda>best y. if y < best then y else best) b ys = Min (insert b (set ys))"
    for b :: 'a and ys
  proof (induction ys arbitrary: b)
    case Nil
    show ?case by simp
  next
    case (Cons y ys)
    have "(if y < b then y else b) = min b y" by (auto simp: min_def)
    moreover have "Min (insert (min b y) (set ys)) = Min (insert b (insert y (set ys)))"
      by (cases "set ys = {}") (simp_all add: min.assoc)
    ultimately show ?case using Cons.IH[of "min b y"] by simp
  qed
  with assms show ?thesis by (cases xs) simp_all
qed

subsection \<open>The resolver sees only the set of winners, unless it draws\<close>

lemma tie_break_function_cong:
  assumes "set winners1 = set winners2" "distinct winners1" "distinct winners2"
    and "tie_break \<noteq> PyStr ''random''"
  shows "tie_break_function rnd preferences tie_break winners1
       = tie_break_function rnd preferences tie_break winners2"
proof -
  have "card (set winners1) = card (set winners2)" using assms(1) by simp
  with assms(2,3) have len: "length winners1 = length winners2"
    by (simp add: distinct_card)
  show ?thesis
  proof (cases "length winners1 = 1")
    case True
    then obtain x where "winners1 = [x]" by (cases winners1) auto
    moreover from True len obtain y where "winners2 = [y]" by (cases winners2) auto
    ultimately show ?thesis using assms(1) by simp
  next
    case False
    have e: "winners1 = [] \<longleftrightarrow> winners2 = []" using assms(1) by auto
    have "py_max winners1 = py_max winners2"
      using e assms(1) by (cases "winners1 = []") (simp_all add: py_max_Max)
    moreover have "py_min winners1 = py_min winners2"
      using e assms(1) by (cases "winners1 = []") (simp_all add: py_min_Min)
    ultimately show ?thesis
      using False len assms(4)
      by (simp add: tie_break_function_def assms(1) split: pyval.splits option.splits)
  qed
qed

subsection \<open>Winner lists of dictionaries with the same entries\<close>

lemma winners_of_set:
  "distinct (map fst scores) \<Longrightarrow>
     set (winners_of scores mx) = {alt. map_of scores alt = Some mx}"
  by (force simp: winners_of_def)

lemma distinct_winners_of:
  "distinct (map fst scores) \<Longrightarrow> distinct (winners_of scores mx)"
  by (simp add: winners_of_def distinct_map_filter)

lemma winners_same_entries:
  fixes scores1 scores2 :: "(int \<times> ('s::linorder)) list"
  assumes "map_of scores1 = map_of scores2"
    and "distinct (map fst scores1)" "distinct (map fst scores2)"
  shows "(scores1 = [] \<longrightarrow>
            py_max (map snd scores1) = Inl EmptySequence \<and>
            py_max (map snd scores2) = Inl EmptySequence) \<and>
         (scores1 \<noteq> [] \<longrightarrow>
            (\<exists>mx. py_max (map snd scores1) = Inr mx \<and> py_max (map snd scores2) = Inr mx \<and>
               set (winners_of scores1 mx) = set (winners_of scores2 mx) \<and>
               distinct (winners_of scores1 mx) \<and> distinct (winners_of scores2 mx)))"
proof -
  have "(k, v) \<in> set scores1 \<longleftrightarrow> (k, v) \<in> set scores2" for k v
    using map_of_eq_Some_iff[OF assms(2), of k v] map_of_eq_Some_iff[OF assms(3), of k v]
    by (simp add: assms(1))
  then have "set scores1 = set scores2"
    by (intro set_eqI) (simp add: split_paired_all)
  then have vals: "set (map snd scores1) = set (map snd scores2)" by simp
  have e: "scores1 = [] \<longleftrightarrow> scores2 = []"
    using \<open>set scores1 = set scores2\<close> by auto
  show ?thesis
  proof (intro conjI impI)
    assume "scores1 = []"
    with e show "py_max (map snd scores1) = Inl EmptySequence"
      "py_max (map snd scores2) = Inl EmptySequence" by simp_all
  next
    assume ne: "scores1 \<noteq> []"
    with e have ne2: "scores2 \<noteq> []" by simp
    have "py_max (map snd scores1) = Inr (Max (set (map snd scores1)))"
      using ne by (intro py_max_Max) simp
    moreover have "py_max (map snd scores2) = Inr (Max (set (map snd scores1)))"
      using ne2 unfolding vals by (intro py_max_Max) simp
    moreover have "set (winners_of scores1 mx) = set (winners_of scores2 mx)" for mx
      using assms by (simp add: winners_of_set)
    ultimately show "\<exists>mx. py_max (map snd scores1) = Inr mx \<and> py_max (map snd scores2) = Inr mx \<and>
               set (winners_of scores1 mx) = set (winners_of scores2 mx) \<and>
               distinct (winners_of scores1 mx) \<and> distinct (winners_of scores2 mx)"
      using assms(2,3) by (auto simp: distinct_winners_of)
  qed
qed

subsection \<open>Two loops over the rankings in lockstep\<close>

lemma for_each_pref_lockstep:
  assumes "\<And>pref st1 st2. pref \<in> set prefs \<Longrightarrow> I st1 st2 \<Longrightarrow>
             \<exists>r1 r2. body1 pref st1 = Inr r1 \<and> body2 pref st2 = Inr r2 \<and> I r1 r2"
    and "I st1 st2"
  shows "\<exists>r1 r2. for_each_pref body1 prefs st1 = Inr r1 \<and>
                 for_each_pref body2 prefs st2 = Inr r2 \<and> I r1 r2"
  using assms
proof (induction prefs arbitrary: st1 st2)
  case Nil
  then show ?case by simp
next
  case (Cons pref prefs)
  from Cons.prems(1)[of pref st1 st2] Cons.prems(2)
  obtain r1 r2 where r: "body1 pref st1 = Inr r1" "body2 pref st2 = Inr r2" "I r1 r2"
    by auto
  have "\<exists>q1 q2. for_each_pref body1 prefs r1 = Inr q1 \<and>
                 for_each_pref body2 prefs r2 = Inr q2 \<and> I q1 q2"
    using Cons.prems(1) r(3) by (intro Cons.IH) auto
  with r show ?case by simp
qed

text \<open>
  The score vectors of the three special cases, for \<open>m\<close> alternatives:
  \<open>[m, m - 1, \<dots>, 1]\<close>, \<open>[1, \<dots>, 1, 0]\<close> and \<open>[1, 0, \<dots>, 0]\<close>.
\<close>

definition borda_vector :: "nat \<Rightarrow> int list" where
  "borda_vector m = map (\<lambda>i. int m - int i) [0..<m]"

definition veto_vector :: "nat \<Rightarrow> int list" where
  "veto_vector m = map (\<lambda>i. if Suc i < m then 1 else 0) [0..<m]"

definition plurality_vector :: "nat \<Rightarrow> int list" where
  "plurality_vector m = map (\<lambda>i. if i = 0 then 1 else 0) [0..<m]"

text \<open>
  The profiles that \<open>generate_preferences\<close> builds from a table with \<open>m\<close> columns: every
  ranking is a permutation of the alternatives 1 to \<open>m\<close>.
\<close>

definition rankings_are_permutations :: "nat \<Rightarrow> profile \<Rightarrow> bool" where
  "rankings_are_permutations m preferences =
     list_all (\<lambda>pref. sort pref = [1..int m]) (map snd preferences)"

lemma permutation_facts:
  assumes "sort pref = [1..int m]"
  shows "set pref = {1..int m}" and "length pref = m" and "distinct pref"
proof -
  have "set (sort pref) = {1..int m}" unfolding assms by simp
  then show "set pref = {1..int m}" by simp
  have "length (sort pref) = m" unfolding assms by simp
  then show "length pref = m" by simp
  have "distinct (sort pref)" unfolding assms by simp
  then show "distinct pref" by simp
qed

lemma rankings_are_permutationsD:
  "rankings_are_permutations m preferences \<Longrightarrow> pref \<in> set (map snd preferences) \<Longrightarrow>
     sort pref = [1..int m]"
  by (auto simp: rankings_are_permutations_def list_all_iff)

lemma rankings_are_permutations_agent:
  "rankings_are_permutations m preferences \<Longrightarrow> map_of preferences agent = Some pref \<Longrightarrow>
     sort pref = [1..int m]"
  by (rule rankings_are_permutationsD) (auto dest: map_of_SomeD intro: rev_image_eqI)

subsection \<open>The inner loops keep the keys\<close>

lemma keys_add_scores:
  "add_scores score_vector i pref scores = Inr r \<Longrightarrow> map fst r = map fst scores"
proof (induction pref arbitrary: i scores)
  case Nil
  then show ?case by simp
next
  case (Cons alt pref)
  then obtain s where s: "map_of scores alt = Some s"
    and r: "add_scores score_vector (Suc i) pref
              (AList.update alt (s + score_vector ! i) scores) = Inr r"
    by (auto split: option.splits if_splits)
  from Cons.IH[OF r] keys_update_present[OF s] show ?case by simp
qed

lemma keys_add_borda:
  "add_borda m i pref scores = Inr r \<Longrightarrow> map fst r = map fst scores"
proof (induction pref arbitrary: i scores)
  case Nil
  then show ?case by simp
next
  case (Cons alt pref)
  then obtain s where s: "map_of scores alt = Some s"
    and r: "add_borda m (Suc i) pref (AList.update alt (s + (int m - int i)) scores) = Inr r"
    by (auto split: option.splits)
  from Cons.IH[OF r] keys_update_present[OF s] show ?case by simp
qed

lemma keys_add_ones:
  "add_ones pref scores = Inr r \<Longrightarrow> map fst r = map fst scores"
proof (induction pref arbitrary: scores)
  case Nil
  then show ?case by simp
next
  case (Cons alt pref)
  then obtain s where s: "map_of scores alt = Some s"
    and r: "add_ones pref (AList.update alt (s + 1) scores) = Inr r"
    by (auto split: option.splits)
  from Cons.IH[OF r] keys_update_present[OF s] show ?case by simp
qed

lemma lookup_key:
  "alt \<in> fst ` set scores \<Longrightarrow> \<exists>s. map_of scores alt = Some s"
  by (cases "map_of scores alt") (simp_all add: map_of_eq_None_iff)

subsection \<open>Borda's loop and the scoring loop\<close>

lemma add_scores_borda:
  assumes "map_of scores1 = map_of scores2" "set pref \<subseteq> fst ` set scores1"
    "i + length pref \<le> m"
  shows "\<exists>r1 r2. add_scores (borda_vector m) i pref scores1 = Inr r1 \<and>
                 add_borda m i pref scores2 = Inr r2 \<and> map_of r1 = map_of r2"
  using assms
proof (induction pref arbitrary: i scores1 scores2)
  case Nil
  then show ?case by simp
next
  case (Cons alt pref)
  from Cons.prems(2) obtain s where s: "map_of scores1 alt = Some s"
    using lookup_key[of alt scores1] by auto
  from Cons.prems(3) have i: "i < m" by simp
  then have nth: "borda_vector m ! i = int m - int i" and len: "i < length (borda_vector m)"
    by (simp_all add: borda_vector_def)
  let ?u1 = "AList.update alt (s + (int m - int i)) scores1"
  let ?u2 = "AList.update alt (s + (int m - int i)) scores2"
  have "\<exists>r1 r2. add_scores (borda_vector m) (Suc i) pref ?u1 = Inr r1 \<and>
                 add_borda m (Suc i) pref ?u2 = Inr r2 \<and> map_of r1 = map_of r2"
  proof (rule Cons.IH)
    show "map_of ?u1 = map_of ?u2" by (simp add: update_conv' Cons.prems(1))
    show "set pref \<subseteq> fst ` set ?u1" using Cons.prems(2) by (auto simp: dom_update)
    show "Suc i + length pref \<le> m" using Cons.prems(3) by simp
  qed
  with s Cons.prems(1) nth len show ?case by simp
qed

subsection \<open>Veto's loop and the scoring loop\<close>

lemma add_scores_veto:
  assumes "map_of scores1 = map_of scores2" "set pref \<subseteq> fst ` set scores1"
    "i + length pref = m"
  shows "\<exists>r1 r2. add_scores (veto_vector m) i pref scores1 = Inr r1 \<and>
                 add_ones (butlast pref) scores2 = Inr r2 \<and> map_of r1 = map_of r2"
  using assms
proof (induction pref arbitrary: i scores1 scores2)
  case Nil
  then show ?case by simp
next
  case (Cons alt pref)
  from Cons.prems(2) obtain s where s: "map_of scores1 alt = Some s"
    using lookup_key[of alt scores1] by auto
  from Cons.prems(3) have len: "i < length (veto_vector m)"
    by (simp add: veto_vector_def)
  show ?case
  proof (cases "pref = []")
    case True
    with Cons.prems(3) have "Suc i = m" by simp
    then have "veto_vector m ! i = 0" by (auto simp: veto_vector_def)
    moreover have "map_of (AList.update alt s scores1) = map_of scores2"
      using s Cons.prems(1) by (simp add: update_conv' map_upd_triv)
    ultimately show ?thesis using True s len by simp
  next
    case False
    with Cons.prems(3) have "Suc i < m" by (cases pref) auto
    then have nth: "veto_vector m ! i = 1" by (simp add: veto_vector_def)
    let ?u1 = "AList.update alt (s + 1) scores1"
    let ?u2 = "AList.update alt (s + 1) scores2"
    have "\<exists>r1 r2. add_scores (veto_vector m) (Suc i) pref ?u1 = Inr r1 \<and>
                   add_ones (butlast pref) ?u2 = Inr r2 \<and> map_of r1 = map_of r2"
    proof (rule Cons.IH)
      show "map_of ?u1 = map_of ?u2" by (simp add: update_conv' Cons.prems(1))
      show "set pref \<subseteq> fst ` set ?u1" using Cons.prems(2) by (auto simp: dom_update)
      show "Suc i + length pref = m" using Cons.prems(3) by simp
    qed
    with False s Cons.prems(1) nth len show ?thesis by simp
  qed
qed

subsection \<open>From the loops to the winner lists\<close>

lemma scoring_rule_agrees:
  fixes body :: "int list \<Rightarrow> (int \<times> int) list \<Rightarrow> py_error + (int \<times> int) list"
  assumes perm: "rankings_are_permutations m preferences"
    and len: "length score_vector = m"
    and step: "\<And>pref scores1 scores2.
        sort pref = [1..int m] \<Longrightarrow> map_of scores1 = map_of scores2 \<Longrightarrow>
        fst ` set scores1 = {1..int m} \<Longrightarrow>
        \<exists>r1 r2. add_scores score_vector 0 pref scores1 = Inr r1 \<and> body pref scores2 = Inr r2 \<and>
                 map_of r1 = map_of r2 \<and> map fst r2 = map fst scores2"
  shows "rel_sum (=) (\<lambda>w1 w2. set w1 = set w2 \<and> distinct w1 \<and> distinct w2)
           (scoring_rule_winners preferences score_vector)
           (case map_of preferences 1 of
              None \<Rightarrow> Inl KeyError
            | Some pref1 \<Rightarrow>
                (case for_each_pref body (map snd preferences) (dict_from_keys pref1 0) of
                   Inl e \<Rightarrow> Inl e
                 | Inr scores \<Rightarrow>
                     (case py_max (map snd scores) of
                        Inl e \<Rightarrow> Inl e
                      | Inr max_score \<Rightarrow> Inr (winners_of scores max_score))))"
proof (cases "map_of preferences 1")
  case None
  then show ?thesis by (simp add: scoring_rule_winners_def)
next
  case (Some pref1)
  from rankings_are_permutations_agent[OF perm Some]
  have p1: "set pref1 = {1..int m}" "length pref1 = m"
    by (rule permutation_facts)+
  define I :: "(int \<times> int) list \<Rightarrow> (int \<times> int) list \<Rightarrow> bool" where
    "I = (\<lambda>scores1 scores2. map_of scores1 = map_of scores2 \<and>
            fst ` set scores1 = {1..int m} \<and>
            distinct (map fst scores1) \<and> distinct (map fst scores2))"
  have init: "I (dict_from_keys [1..int m] 0) (dict_from_keys pref1 0)"
    unfolding I_def
    by (simp add: distinct_dict_from_keys keys_dict_from_keys_image fun_eq_iff
          map_of_dict_from_keys p1 del: set_upto)
      (simp add: p1)
  have "\<exists>r1 r2. for_each_pref (add_scores score_vector 0) (map snd preferences)
                    (dict_from_keys [1..int m] 0) = Inr r1 \<and>
                 for_each_pref body (map snd preferences) (dict_from_keys pref1 0) = Inr r2 \<and>
                 I r1 r2"
  proof (rule for_each_pref_lockstep[where I = I, OF _ init])
    fix pref scores1 scores2
    assume "pref \<in> set (map snd preferences)" and inv: "I scores1 scores2"
    then have srt: "sort pref = [1..int m]"
      using rankings_are_permutationsD[OF perm] by blast
    from inv have eq: "map_of scores1 = map_of scores2"
      and keys: "fst ` set scores1 = {1..int m}"
      and d: "distinct (map fst scores1)" "distinct (map fst scores2)"
      by (simp_all add: I_def)
    from step[OF srt eq keys] obtain r1 r2 where
      r: "add_scores score_vector 0 pref scores1 = Inr r1" "body pref scores2 = Inr r2"
        "map_of r1 = map_of r2" "map fst r2 = map fst scores2"
      by blast
    from keys_add_scores[OF r(1)] have k1: "map fst r1 = map fst scores1" .
    have "fst ` set r1 = fst ` set scores1"
      using arg_cong[OF k1, of set] by simp
    with r k1 keys d have "I r1 r2" by (simp add: I_def)
    with r show "\<exists>r1 r2. add_scores score_vector 0 pref scores1 = Inr r1 \<and>
        body pref scores2 = Inr r2 \<and> I r1 r2"
      by blast
  qed
  then obtain r1 r2 where
    l1: "for_each_pref (add_scores score_vector 0) (map snd preferences)
           (dict_from_keys [1..int m] 0) = Inr r1"
    and l2: "for_each_pref body (map snd preferences) (dict_from_keys pref1 0) = Inr r2"
    and inv: "I r1 r2"
    by blast
  from inv have eq: "map_of r1 = map_of r2"
    and d: "distinct (map fst r1)" "distinct (map fst r2)"
    by (simp_all add: I_def)
  from eq have e: "r1 = [] \<longleftrightarrow> r2 = []"
    by (metis map_of_eq_empty_iff)
  note w = winners_same_entries[OF eq d]
  show ?thesis
  proof (cases "r1 = []")
    case True
    with w e show ?thesis
      by (simp add: scoring_rule_winners_def Some len p1 l1 l2)
  next
    case False
    with w obtain mx where "py_max (map snd r1) = Inr mx" "py_max (map snd r2) = Inr mx"
      "set (winners_of r1 mx) = set (winners_of r2 mx)"
      "distinct (winners_of r1 mx)" "distinct (winners_of r2 mx)"
      by blast
    then show ?thesis
      by (simp add: scoring_rule_winners_def Some len p1 l1 l2)
  qed
qed

lemma resolve_agrees:
  assumes "rel_sum (=) (\<lambda>w1 w2. set w1 = set w2 \<and> distinct w1 \<and> distinct w2) W1 W2"
    and "tie_break \<noteq> PyStr ''random''"
  shows "(case W1 of Inl e \<Rightarrow> Inl e
          | Inr winners \<Rightarrow> tie_break_function rnd preferences tie_break winners) =
         (case W2 of Inl e \<Rightarrow> Inl e
          | Inr winners \<Rightarrow> tie_break_function rnd preferences tie_break winners)"
  using assms by (cases W1; cases W2) (auto intro: tie_break_function_cong)

lemma rel_sum_weaken:
  "rel_sum (=) (\<lambda>w1 w2. set w1 = set w2 \<and> distinct w1 \<and> distinct w2) W1 W2 \<Longrightarrow>
   rel_sum (=) (\<lambda>w1 w2. set w1 = set w2) W1 W2"
  by (cases W1; cases W2) auto

lemma borda_winners_agree:
  assumes "rankings_are_permutations m preferences"
  shows "rel_sum (=) (\<lambda>w1 w2. set w1 = set w2 \<and> distinct w1 \<and> distinct w2)
           (scoring_rule_winners preferences (borda_vector m)) (borda_winners preferences)"
proof -
  have b: "borda_winners preferences =
           (case map_of preferences 1 of
              None \<Rightarrow> Inl KeyError
            | Some pref1 \<Rightarrow>
                (case for_each_pref (add_borda m 0) (map snd preferences) (dict_from_keys pref1 0) of
                   Inl e \<Rightarrow> Inl e
                 | Inr scores \<Rightarrow>
                     (case py_max (map snd scores) of
                        Inl e \<Rightarrow> Inl e
                      | Inr max_score \<Rightarrow> Inr (winners_of scores max_score))))"
  proof (cases "map_of preferences 1")
    case None
    then show ?thesis by (simp add: borda_winners_def)
  next
    case (Some pref1)
    from permutation_facts(2)[OF rankings_are_permutations_agent[OF assms Some]]
    show ?thesis by (simp add: borda_winners_def Some)
  qed
  show ?thesis
    unfolding b
  proof (rule scoring_rule_agrees[OF assms])
    show "length (borda_vector m) = m" by (simp add: borda_vector_def)
  next
    fix pref and scores1 scores2 :: "(int \<times> int) list"
    assume srt: "sort pref = [1..int m]" and eq: "map_of scores1 = map_of scores2"
      and keys: "fst ` set scores1 = {1..int m}"
    note p = permutation_facts[OF srt]
    from add_scores_borda[OF eq, of pref 0 m] p keys
    obtain r1 r2 where r: "add_scores (borda_vector m) 0 pref scores1 = Inr r1"
      "add_borda m 0 pref scores2 = Inr r2" "map_of r1 = map_of r2"
      by auto
    with keys_add_borda[OF r(2)]
    show "\<exists>r1 r2. add_scores (borda_vector m) 0 pref scores1 = Inr r1 \<and>
        add_borda m 0 pref scores2 = Inr r2 \<and> map_of r1 = map_of r2 \<and>
        map fst r2 = map fst scores2"
      by blast
  qed
qed

lemma veto_winners_agree:
  assumes "rankings_are_permutations m preferences"
  shows "rel_sum (=) (\<lambda>w1 w2. set w1 = set w2 \<and> distinct w1 \<and> distinct w2)
           (scoring_rule_winners preferences (veto_vector m)) (veto_winners preferences)"
  unfolding veto_winners_def
proof (rule scoring_rule_agrees[OF assms])
  show "length (veto_vector m) = m" by (simp add: veto_vector_def)
next
  fix pref and scores1 scores2 :: "(int \<times> int) list"
  assume srt: "sort pref = [1..int m]" and eq: "map_of scores1 = map_of scores2"
    and keys: "fst ` set scores1 = {1..int m}"
  note p = permutation_facts[OF srt]
  from add_scores_veto[OF eq, of pref 0 m] p keys
  obtain r1 r2 where r: "add_scores (veto_vector m) 0 pref scores1 = Inr r1"
    "add_ones (butlast pref) scores2 = Inr r2" "map_of r1 = map_of r2"
    by auto
  with keys_add_ones[OF r(2)]
  show "\<exists>r1 r2. add_scores (veto_vector m) 0 pref scores1 = Inr r1 \<and>
      add_ones (butlast pref) scores2 = Inr r2 \<and> map_of r1 = map_of r2 \<and>
      map fst r2 = map fst scores2"
    by blast
qed

text \<open>
  Claim C4, as the code has it. On a profile whose rankings are all permutations of the
  alternatives 1 to \<open>m\<close>, and for every policy but the random one, the scoring rule with
  the vector \<open>[m, \<dots>, 1]\<close> returns what Borda returns and with \<open>[1, \<dots>, 1, 0]\<close> what
  veto returns (an alternative, \<^verbatim>\<open>None\<close> or an error alike). For every policy, the
  random one too, the winner lists handed to the resolver have the same elements; the
  scoring rule lists them by increasing number, Borda and veto in the order of agent 1's
  ranking, so one and the same draw can pick different alternatives.
\<close>

theorem scoring_rule_borda_veto:
  "rankings_are_permutations m preferences \<Longrightarrow>
     (tie_break \<noteq> PyStr ''random'' \<longrightarrow>
        scoring_rule rnd preferences (borda_vector m) tie_break = borda rnd preferences tie_break \<and>
        scoring_rule rnd preferences (veto_vector m) tie_break = veto rnd preferences tie_break) \<and>
     rel_sum (=) (\<lambda>w1 w2. set w1 = set w2)
       (scoring_rule_winners preferences (borda_vector m)) (borda_winners preferences) \<and>
     rel_sum (=) (\<lambda>w1 w2. set w1 = set w2)
       (scoring_rule_winners preferences (veto_vector m)) (veto_winners preferences)"
proof (intro conjI impI)
  assume perm: "rankings_are_permutations m preferences"
  show "rel_sum (=) (\<lambda>w1 w2. set w1 = set w2)
       (scoring_rule_winners preferences (borda_vector m)) (borda_winners preferences)"
    by (rule rel_sum_weaken[OF borda_winners_agree[OF perm]])
  show "rel_sum (=) (\<lambda>w1 w2. set w1 = set w2)
       (scoring_rule_winners preferences (veto_vector m)) (veto_winners preferences)"
    by (rule rel_sum_weaken[OF veto_winners_agree[OF perm]])
  assume tb: "tie_break \<noteq> PyStr ''random''"
  show "scoring_rule rnd preferences (borda_vector m) tie_break = borda rnd preferences tie_break"
    unfolding scoring_rule_def borda_def
    by (rule resolve_agrees[OF borda_winners_agree[OF perm] tb])
  show "scoring_rule rnd preferences (veto_vector m) tie_break = veto rnd preferences tie_break"
    unfolding scoring_rule_def veto_def
    by (rule resolve_agrees[OF veto_winners_agree[OF perm] tb])
qed

theorem scoring_rule_borda_veto_witness:
  "rankings_are_permutations 3 [(1, [2, 1, 3]), (2, [1, 2, 3]), (3, [1, 3, 2])] \<and>
   borda_vector 3 = [3, 2, 1] \<and> veto_vector 3 = [1, 1, 0] \<and>
   scoring_rule 0 [(1, [2, 1, 3]), (2, [1, 2, 3]), (3, [1, 3, 2])] (borda_vector 3) (PyInt 2)
     = borda 0 [(1, [2, 1, 3]), (2, [1, 2, 3]), (3, [1, 3, 2])] (PyInt 2) \<and>
   scoring_rule 0 [(1, [2, 1, 3]), (2, [1, 2, 3]), (3, [1, 3, 2])] (veto_vector 3) (PyInt 2)
     = veto 0 [(1, [2, 1, 3]), (2, [1, 2, 3]), (3, [1, 3, 2])] (PyInt 2) \<and>
   borda 0 [(1, [2, 1, 3]), (2, [1, 2, 3]), (3, [1, 3, 2])] (PyInt 2) = Inr (Some 1) \<and>
   veto 0 [(1, [2, 1, 3]), (2, [1, 2, 3]), (3, [1, 3, 2])] (PyInt 2) = Inr (Some 1)"
proof -
  have p: "rankings_are_permutations 3 [(1, [2, 1, 3]), (2, [1, 2, 3]), (3, [1, 3, 2])]"
    by code_simp
  have t: "PyInt 2 \<noteq> PyStr ''random''" by simp
  have v: "borda_vector 3 = [3, 2, 1]" "veto_vector 3 = [1, 1, 0]"
    "borda 0 [(1, [2, 1, 3]), (2, [1, 2, 3]), (3, [1, 3, 2])] (PyInt 2) = Inr (Some 1)"
    "veto 0 [(1, [2, 1, 3]), (2, [1, 2, 3]), (3, [1, 3, 2])] (PyInt 2) = Inr (Some 1)"
    by code_simp+
  from scoring_rule_borda_veto [OF p, of "PyInt 2" 0] t
  have "scoring_rule 0 [(1, [2, 1, 3]), (2, [1, 2, 3]), (3, [1, 3, 2])] (borda_vector 3) (PyInt 2)
          = borda 0 [(1, [2, 1, 3]), (2, [1, 2, 3]), (3, [1, 3, 2])] (PyInt 2)"
    and "scoring_rule 0 [(1, [2, 1, 3]), (2, [1, 2, 3]), (3, [1, 3, 2])] (veto_vector 3) (PyInt 2)
          = veto 0 [(1, [2, 1, 3]), (2, [1, 2, 3]), (3, [1, 3, 2])] (PyInt 2)"
    by blast+
  with p v show ?thesis by (intro conjI)
qed

text \<open>
  Claim C4 as stated fails twice. On the profile that STV leaves after striking
  alternative 1 of three (rankings over 2 and 3), Borda returns 3, while the scoring rule
  fails: with the two weights \<open>[2, 1]\<close> on the lookup of alternative 3, with the three
  weights \<open>[3, 2, 1]\<close> on the length check. And on a permutation profile with a tie, the
  random policy with the same draw picks 2 for Borda and veto and 1 for the scoring rule.
\<close>

theorem scoring_rule_differs_from_borda_veto:
  "borda 0 [(1, [2, 3]), (2, [3, 2])] (PyStr ''max'') = Inr (Some 3) \<and>
   scoring_rule 0 [(1, [2, 3]), (2, [3, 2])] [2, 1 :: int] (PyStr ''max'') = Inl KeyError \<and>
   scoring_rule 0 [(1, [2, 3]), (2, [3, 2])] [3, 2, 1 :: int] (PyStr ''max'') = Inl ScoreVectorLength \<and>
   borda 0 [(1, [2, 1]), (2, [1, 2])] (PyStr ''random'') = Inr (Some 2) \<and>
   scoring_rule 0 [(1, [2, 1]), (2, [1, 2])] [2, 1 :: int] (PyStr ''random'') = Inr (Some 1) \<and>
   veto 0 [(1, [2, 1]), (2, [1, 2])] (PyStr ''random'') = Inr (Some 2) \<and>
   scoring_rule 0 [(1, [2, 1]), (2, [1, 2])] [1, 0 :: int] (PyStr ''random'') = Inr (Some 1)"
  by code_simp

subsection \<open>Plurality's loop and the scoring loop\<close>

lemma add_scores_zero:
  assumes "0 < i" "i + length pref \<le> m" "set pref \<subseteq> fst ` set scores"
  shows "\<exists>r. add_scores (plurality_vector m) i pref scores = Inr r \<and> map_of r = map_of scores"
  using assms
proof (induction pref arbitrary: i scores)
  case Nil
  then show ?case by simp
next
  case (Cons alt pref)
  from Cons.prems(3) obtain s where s: "map_of scores alt = Some s"
    using lookup_key[of alt scores] by auto
  from Cons.prems(1,2) have nth: "plurality_vector m ! i = 0"
    and len: "i < length (plurality_vector m)"
    by (simp_all add: plurality_vector_def)
  let ?u = "AList.update alt s scores"
  have u: "map_of ?u = map_of scores"
    using s by (simp add: update_conv' map_upd_triv)
  have "\<exists>r. add_scores (plurality_vector m) (Suc i) pref ?u = Inr r \<and> map_of r = map_of ?u"
  proof (rule Cons.IH)
    show "0 < Suc i" by simp
    show "Suc i + length pref \<le> m" using Cons.prems(2) by simp
    show "set pref \<subseteq> fst ` set ?u" using Cons.prems(3) by (auto simp: dom_update)
  qed
  with s nth len u show ?case by simp
qed

lemma add_scores_top:
  assumes "length (top_alt # rest) \<le> m" "set (top_alt # rest) \<subseteq> fst ` set scores"
  shows "\<exists>r s. map_of scores top_alt = Some s \<and>
           add_scores (plurality_vector m) 0 (top_alt # rest) scores = Inr r \<and>
           map_of r = (map_of scores)(top_alt \<mapsto> s + 1)"
proof -
  from assms(2) obtain s where s: "map_of scores top_alt = Some s"
    using lookup_key[of top_alt scores] by auto
  from assms(1) have nth: "plurality_vector m ! 0 = 1" and len: "0 < length (plurality_vector m)"
    by (simp_all add: plurality_vector_def upt_conv_Cons)
  let ?u = "AList.update top_alt (s + 1) scores"
  have "\<exists>r. add_scores (plurality_vector m) (Suc 0) rest ?u = Inr r \<and> map_of r = map_of ?u"
  proof (rule add_scores_zero)
    show "0 < Suc 0" by simp
    show "Suc 0 + length rest \<le> m" using assms(1) by simp
    show "set rest \<subseteq> fst ` set ?u" using assms(2) by (auto simp: dom_update)
  qed
  with s nth len show ?thesis by (simp add: update_conv')
qed

lemma keys_count_top_loop:
  "for_each_pref count_top prefs top_counts = Inr r \<Longrightarrow>
     fst ` set r = fst ` set top_counts \<union> hd ` set prefs"
proof (induction prefs arbitrary: top_counts)
  case Nil
  then show ?case by simp
next
  case (Cons pref prefs)
  then obtain top_alt rest where p: "pref = top_alt # rest"
    by (cases pref) auto
  let ?u = "AList.update top_alt
              ((case map_of top_counts top_alt of None \<Rightarrow> 0 | Some c \<Rightarrow> c) + 1) top_counts"
  from Cons.prems p have "for_each_pref count_top prefs ?u = Inr r" by simp
  from Cons.IH[OF this] show ?case by (auto simp: p dom_update)
qed

lemma plurality_winners_agree:
  assumes agent1: "map_of preferences 1 = Some pref1"
    and perm: "rankings_are_permutations m preferences"
    and pos: "0 < m"
    and tops: "set [1..int m] \<subseteq> set (map hd (map snd preferences))"
  shows "\<exists>w1 w2. scoring_rule_winners preferences (plurality_vector m) = Inr w1 \<and>
           plurality_winners preferences = Inr w2 \<and> set w1 = set w2"
proof -
  from rankings_are_permutations_agent[OF perm agent1]
  have p1: "length pref1 = m" by (rule permutation_facts)
  define J :: "(int \<times> int) list \<Rightarrow> (int \<times> int) list \<Rightarrow> bool" where
    "J = (\<lambda>scores top_counts.
            fst ` set scores = {1..int m} \<and>
            distinct (map fst scores) \<and> distinct (map fst top_counts) \<and>
            fst ` set top_counts \<subseteq> {1..int m} \<and>
            (\<forall>alt\<in>{1..int m}. map_of scores alt =
                Some (case map_of top_counts alt of None \<Rightarrow> 0 | Some c \<Rightarrow> c)))"
  have init: "J (dict_from_keys [1..int m] 0) []"
    unfolding J_def
    by (simp add: distinct_dict_from_keys keys_dict_from_keys_image map_of_dict_from_keys)
  have "\<exists>r1 r2. for_each_pref (add_scores (plurality_vector m) 0) (map snd preferences)
                    (dict_from_keys [1..int m] 0) = Inr r1 \<and>
                 for_each_pref count_top (map snd preferences) [] = Inr r2 \<and> J r1 r2"
  proof (rule for_each_pref_lockstep[where I = J, OF _ init])
    fix pref scores top_counts
    assume "pref \<in> set (map snd preferences)" and inv: "J scores top_counts"
    then have srt: "sort pref = [1..int m]"
      using rankings_are_permutationsD[OF perm] by blast
    note p = permutation_facts[OF srt]
    from p(2) pos obtain top_alt rest where pr: "pref = top_alt # rest"
      by (cases pref) auto
    from inv have keys: "fst ` set scores = {1..int m}"
      and d: "distinct (map fst scores)" "distinct (map fst top_counts)"
      and sub: "fst ` set top_counts \<subseteq> {1..int m}"
      and val: "\<And>alt. alt \<in> {1..int m} \<Longrightarrow> map_of scores alt =
                Some (case map_of top_counts alt of None \<Rightarrow> 0 | Some c \<Rightarrow> c)"
      by (simp_all add: J_def)
    have top: "top_alt \<in> {1..int m}" using p(1) pr by auto
    let ?g = "case map_of top_counts top_alt of None \<Rightarrow> 0 | Some c \<Rightarrow> c"
    have "length (top_alt # rest) \<le> m" using p(2) pr by simp
    moreover have "set (top_alt # rest) \<subseteq> fst ` set scores" using p(1) pr keys by simp
    ultimately obtain r1 s where s: "map_of scores top_alt = Some s"
      and r1: "add_scores (plurality_vector m) 0 pref scores = Inr r1"
      and m1: "map_of r1 = (map_of scores)(top_alt \<mapsto> s + 1)"
      unfolding pr using add_scores_top[of top_alt rest m scores] by blast
    from s val[OF top] have sg: "s = ?g" by simp
    let ?r2 = "AList.update top_alt (?g + 1) top_counts"
    have r2: "count_top pref top_counts = Inr ?r2" by (simp add: pr)
    have k1: "map fst r1 = map fst scores" by (rule keys_add_scores[OF r1])
    have "fst ` set r1 = fst ` set scores" using arg_cong[OF k1, of set] by simp
    moreover have "fst ` set ?r2 \<subseteq> {1..int m}" using sub top by (auto simp: dom_update)
    moreover have "map_of r1 alt = Some (case map_of ?r2 alt of None \<Rightarrow> 0 | Some c \<Rightarrow> c)"
      if "alt \<in> {1..int m}" for alt
      using val[OF that] by (simp add: m1 update_conv' sg)
    ultimately have "J r1 ?r2"
      using keys d k1 by (simp add: J_def distinct_update)
    with r1 r2 show "\<exists>r1 r2. add_scores (plurality_vector m) 0 pref scores = Inr r1 \<and>
        count_top pref top_counts = Inr r2 \<and> J r1 r2"
      by blast
  qed
  then obtain r1 r2 where
    l1: "for_each_pref (add_scores (plurality_vector m) 0) (map snd preferences)
           (dict_from_keys [1..int m] 0) = Inr r1"
    and l2: "for_each_pref count_top (map snd preferences) [] = Inr r2"
    and inv: "J r1 r2"
    by blast
  from inv have keys: "fst ` set r1 = {1..int m}"
    and d: "distinct (map fst r1)" "distinct (map fst r2)"
    and sub: "fst ` set r2 \<subseteq> {1..int m}"
    and val: "\<And>alt. alt \<in> {1..int m} \<Longrightarrow> map_of r1 alt =
                Some (case map_of r2 alt of None \<Rightarrow> 0 | Some c \<Rightarrow> c)"
    by (simp_all add: J_def)
  have t1: "set (map hd (map snd preferences)) = hd ` set (map snd preferences)"
    by (simp only: set_map)
  have t2: "{1..int m} \<subseteq> hd ` set (map snd preferences)"
    using tops unfolding t1 by (simp only: set_upto)
  have "fst ` set r2 = fst ` set ([] :: (int \<times> int) list) \<union> hd ` set (map snd preferences)"
    by (rule keys_count_top_loop[OF l2])
  then have t3: "fst ` set r2 = hd ` set (map snd preferences)"
    by (simp only: list.set image_empty Un_empty_left)
  have keys2: "fst ` set r2 = {1..int m}"
  proof (rule equalityI)
    show "fst ` set r2 \<subseteq> {1..int m}" by (rule sub)
    show "{1..int m} \<subseteq> fst ` set r2" unfolding t3 by (rule t2)
  qed
  have eq: "map_of r1 = map_of r2"
  proof
    fix alt
    show "map_of r1 alt = map_of r2 alt"
    proof (cases "alt \<in> {1..int m}")
      case True
      with keys2 obtain c where "map_of r2 alt = Some c"
        using lookup_key[of alt r2] by auto
      with val[OF True] show ?thesis by simp
    next
      case False
      with keys keys2 have "map_of r1 alt = None" "map_of r2 alt = None"
        by (simp_all add: map_of_eq_None_iff)
      then show ?thesis by simp
    qed
  qed
  from pos keys have ne: "r1 \<noteq> []" by auto
  from winners_same_entries[OF eq d] ne
  obtain mx where "py_max (map snd r1) = Inr mx" "py_max (map snd r2) = Inr mx"
    "set (winners_of r1 mx) = set (winners_of r2 mx)"
    by blast
  moreover have "length (plurality_vector m) = m" by (simp add: plurality_vector_def)
  ultimately show ?thesis
    by (simp add: scoring_rule_winners_def plurality_winners_def agent1 p1 l1 l2)
qed

lemma for_each_pref_add_scores_empty:
  "\<forall>pref\<in>set prefs. pref = [] \<Longrightarrow>
     for_each_pref (add_scores score_vector i) prefs scores = Inr scores"
  by (induction prefs) simp_all

lemma for_each_pref_count_top_empty:
  "prefs \<noteq> [] \<Longrightarrow> \<forall>pref\<in>set prefs. pref = [] \<Longrightarrow>
     for_each_pref count_top prefs top_counts = Inl IndexError"
  by (cases prefs) simp_all

lemma plurality_no_alternatives:
  assumes agent1: "map_of preferences 1 = Some pref1"
    and perm: "rankings_are_permutations 0 preferences"
  shows "scoring_rule_winners preferences (plurality_vector 0) = Inl EmptySequence"
    and "plurality_winners preferences = Inl IndexError"
proof -
  have e: "\<forall>pref\<in>set (map snd preferences). pref = []"
  proof
    fix pref assume "pref \<in> set (map snd preferences)"
    from permutation_facts(2)[OF rankings_are_permutationsD[OF perm this]]
    show "pref = []" by simp
  qed
  from agent1 have ne: "map snd preferences \<noteq> []" by auto
  from permutation_facts(2)[OF rankings_are_permutations_agent[OF perm agent1]]
  have "pref1 = []" by simp
  then show "scoring_rule_winners preferences (plurality_vector 0) = Inl EmptySequence"
    by (simp add: scoring_rule_winners_def agent1 plurality_vector_def
          for_each_pref_add_scores_empty[OF e] dict_from_keys_def)
  show "plurality_winners preferences = Inl IndexError"
    by (simp add: plurality_winners_def for_each_pref_count_top_empty[OF ne e])
qed

text \<open>
  Claim C5, as the code has it. Take a profile that has agent 1 and whose rankings are
  all permutations of the alternatives 1 to \<open>m\<close>. If there is at least one alternative
  and every alternative is the first choice of some agent, then the scoring rule with the
  vector \<open>[1, 0, \<dots>, 0]\<close> and plurality both compute a winner list, and the two lists
  have the same elements. (Without alternatives neither computes one: \<^verbatim>\<open>max\<close> fails on
  the empty scores, plurality on the first ranking's first element.)
\<close>

theorem scoring_rule_plurality:
  "map_of preferences 1 = Some pref1 \<Longrightarrow> rankings_are_permutations m preferences \<Longrightarrow>
     (0 < m \<longrightarrow> set [1..int m] \<subseteq> set (map hd (map snd preferences)) \<longrightarrow>
        (\<exists>w1 w2. scoring_rule_winners preferences (plurality_vector m) = Inr w1 \<and>
           plurality_winners preferences = Inr w2 \<and> set w1 = set w2)) \<and>
     (m = 0 \<longrightarrow>
        scoring_rule_winners preferences (plurality_vector m) = Inl EmptySequence \<and>
        plurality_winners preferences = Inl IndexError)"
  using plurality_winners_agree plurality_no_alternatives by blast

theorem scoring_rule_plurality_witness:
  "rankings_are_permutations 3 [(1, [1, 2, 3]), (2, [2, 3, 1]), (3, [3, 1, 2]), (4, [1, 3, 2])] \<and>
   plurality_vector 3 = [1, 0, 0] \<and>
   (\<exists>w1 w2. scoring_rule_winners [(1, [1, 2, 3]), (2, [2, 3, 1]), (3, [3, 1, 2]), (4, [1, 3, 2])] (plurality_vector 3) = Inr w1 \<and>
      plurality_winners [(1, [1, 2, 3]), (2, [2, 3, 1]), (3, [3, 1, 2]), (4, [1, 3, 2])] = Inr w2 \<and> set w1 = set w2) \<and>
   plurality_winners [(1, [1, 2, 3]), (2, [2, 3, 1]), (3, [3, 1, 2]), (4, [1, 3, 2])] = Inr [1] \<and>
   scoring_rule_winners [(1, [])] (plurality_vector 0) = Inl EmptySequence \<and>
   plurality_winners [(1, [])] = Inl IndexError"
proof -
  let ?P = "[(1, [1, 2, 3]), (2, [2, 3, 1]), (3, [3, 1, 2]), (4, [1, 3, 2])] :: profile"
  have a: "map_of ?P 1 = Some [1, 2, 3]" by simp
  have p: "rankings_are_permutations 3 ?P" by code_simp
  have t: "set [1..int 3] \<subseteq> set (map hd (map snd ?P))" by code_simp
  have v: "plurality_vector 3 = [1, 0, 0]" "plurality_winners ?P = Inr [1]" by code_simp+
  have "(0::nat) < 3" by simp
  with scoring_rule_plurality [OF a p] t
  have w: "\<exists>w1 w2. scoring_rule_winners ?P (plurality_vector 3) = Inr w1 \<and>
      plurality_winners ?P = Inr w2 \<and> set w1 = set w2"
    by blast
  have a0: "map_of ([(1, [])] :: profile) 1 = Some []" by simp
  have p0: "rankings_are_permutations 0 [(1, [])]" by code_simp
  from scoring_rule_plurality [OF a0 p0]
  have z: "scoring_rule_winners [(1, [])] (plurality_vector 0) = Inl EmptySequence"
    "plurality_winners [(1, [])] = Inl IndexError"
    by blast+
  from p v w z show ?thesis by (intro conjI)
qed

text \<open>
  Claim C5 as stated fails. In a profile of agents 2 and 3 each of the two alternatives
  is the first choice of one agent; plurality finds both as winners, the scoring rule
  fails on the lookup of agent 1. And in the profile that STV leaves after striking
  alternative 1 of three, each remaining alternative is a first choice; plurality finds
  both, the scoring rule fails on the lookup of alternative 3 in its scores.
\<close>

theorem scoring_rule_differs_from_plurality:
  "plurality_winners [(2, [1, 2]), (3, [2, 1])] = Inr [1, 2] \<and>
   scoring_rule_winners [(2, [1, 2]), (3, [2, 1])] [1, 0 :: int] = Inl KeyError \<and>
   plurality_winners [(1, [2, 3]), (2, [3, 2])] = Inr [2, 3] \<and>
   scoring_rule_winners [(1, [2, 3]), (2, [3, 2])] [1, 0 :: int] = Inl KeyError"
  by code_simp

end
